theory Spec2Isabelle
  imports Main "HOL-Library.Sublist"
begin

text \<open>
  A shallow embedding of the label processing of \<^verbatim>\<open>curiam/inception/tsv_processing.py\<close>
  (the compound label parser, the renumbering of a sentence and the span aggregation over
  simplified rows) and of \<^verbatim>\<open>Sentence.get_annotations\<close> of \<^verbatim>\<open>curiam/document.py\<close>, with
  the properties the specification states of them.
\<close>

section \<open>Python built-ins used by the label processing code\<close>

text \<open>
  A Python \<open>str\<close> is modelled as a \<open>string\<close>; one \<open>char\<close> stands for one code point
  below 256.  Exceptions are values: a function that can raise returns
  \<open>py_error + 'a\<close>, with \<open>Inl\<close> carrying the exception.
\<close>

datatype py_error = ValueError | IndexError

text \<open>
  \<^verbatim>\<open>s.split(sep)\<close> for a one-character separator: the result is never empty and
  keeps empty pieces (the \<open>[]\<close> branch below is never taken).
\<close>

fun split_on :: "char \<Rightarrow> string \<Rightarrow> string list" where
  "split_on sep [] = [[]]"
| "split_on sep (c # cs) =
     (if c = sep then [] # split_on sep cs
      else (case split_on sep cs of
              [] \<Rightarrow> [[c]]
            | piece # pieces \<Rightarrow> (c # piece) # pieces))"

text \<open>\<^verbatim>\<open>s.index(c)\<close>: position of the first occurrence, \<open>ValueError\<close> when there is none.\<close>

fun str_index :: "string \<Rightarrow> char \<Rightarrow> py_error + nat" where
  "str_index [] c = Inl ValueError"
| "str_index (x # xs) c =
     (if x = c then Inr 0
      else (case str_index xs c of Inl e \<Rightarrow> Inl e | Inr k \<Rightarrow> Inr (Suc k)))"

text \<open>\<^verbatim>\<open>sub in s\<close> for strings: \<open>sub\<close> occurs as a contiguous piece of \<open>s\<close>.\<close>

fun str_contains :: "string \<Rightarrow> string \<Rightarrow> bool" where
  "str_contains sub [] = (sub = [])"
| "str_contains sub (c # cs) = (prefix sub (c # cs) \<or> str_contains sub cs)"

text \<open>\<^verbatim>\<open>xs[i]\<close> on a list: negative indexes count from the end, \<open>IndexError\<close> out of range.\<close>

definition getitem :: "'a list \<Rightarrow> int \<Rightarrow> py_error + 'a" where
  "getitem xs i =
     (if 0 \<le> i \<and> i < int (length xs) then Inr (xs ! nat i)
      else if i < 0 \<and> - int (length xs) \<le> i then Inr (xs ! nat (int (length xs) + i))
      else Inl IndexError)"

text \<open>
  \<^verbatim>\<open>int(s)\<close> on a string, base 10: surrounding whitespace is stripped, one sign is
  allowed, the digits may be grouped by single underscores.  The whitespace of
  \<^verbatim>\<open>int\<close> is tab, line feed, vertical tab, form feed, carriage return and space, and of
  the code points from 128 to 255 the two that count as spaces, 0x85 and 0xA0.
  The interpreter's configurable limit on the number of digits is not modelled.
\<close>

definition digit_of :: "char \<Rightarrow> nat option" where
  "digit_of =
     map_of [(CHR ''0'', 0), (CHR ''1'', 1), (CHR ''2'', 2), (CHR ''3'', 3), (CHR ''4'', 4),
             (CHR ''5'', 5), (CHR ''6'', 6), (CHR ''7'', 7), (CHR ''8'', 8), (CHR ''9'', 9)]"

definition int_space :: "char \<Rightarrow> bool" where
  "int_space c \<longleftrightarrow>
     c = CHR 0x09 \<or> c = CHR 0x0A \<or> c = CHR 0x0B \<or> c = CHR 0x0C \<or> c = CHR 0x0D
     \<or> c = CHR '' '' \<or> c = CHR 0x85 \<or> c = CHR 0xA0"

definition int_strip :: "string \<Rightarrow> string" where
  "int_strip s = rev (dropWhile int_space (rev (dropWhile int_space s)))"

text \<open>
  The digits after the sign, read left to right: \<open>acc\<close> is the value so far,
  \<open>after_digit\<close> says whether the previous character was a digit (an underscore is
  allowed only between two digits, so it is accepted only when a digit follows).
\<close>

fun int_digits :: "nat \<Rightarrow> bool \<Rightarrow> string \<Rightarrow> nat option" where
  "int_digits acc after_digit [] = (if after_digit then Some acc else None)"
| "int_digits acc after_digit (c # cs) =
     (if c = CHR ''_''
      then (if after_digit \<and> cs \<noteq> [] \<and> digit_of (hd cs) \<noteq> None
            then int_digits acc False cs else None)
      else (case digit_of c of
              None \<Rightarrow> None
            | Some d \<Rightarrow> int_digits (10 * acc + d) True cs))"

definition py_int :: "string \<Rightarrow> int option" where
  "py_int s =
     (case int_strip s of
        [] \<Rightarrow> None
      | c # cs \<Rightarrow>
          if c = CHR ''-'' then map_option (\<lambda>n. - int n) (int_digits 0 False cs)
          else if c = CHR ''+'' then map_option int (int_digits 0 False cs)
          else map_option int (int_digits 0 False (c # cs)))"

section \<open>Compound label parser\<close>

text \<open>
  The text of a sub-label between its first \<open>[\<close> and its last character, the slice
  \<^verbatim>\<open>sublabel[bracket_index+1:-1]\<close>; it is empty when the bracket is the last character.
\<close>

definition bracket_text :: "string \<Rightarrow> string" where
  "bracket_text sublabel =
     butlast (drop (Suc (length (takeWhile (\<lambda>c. c \<noteq> CHR ''['') sublabel))) sublabel)"

text \<open>
  One pass of the loop body of \<^verbatim>\<open>process_compound_label\<close>: a sub-label without \<open>[\<close>
  gives itself and \<open>-1\<close>; otherwise the slice after the first \<open>[\<close> is converted by
  \<^verbatim>\<open>int\<close>, which may raise.
\<close>

definition process_sublabel :: "string \<Rightarrow> py_error + (string \<times> int)" where
  "process_sublabel sublabel =
     (if CHR ''['' \<notin> set sublabel then Inr (sublabel, - 1)
      else (case str_index sublabel (CHR ''['') of
              Inl e \<Rightarrow> Inl e
            | Inr bracket_index \<Rightarrow>
                (case py_int (butlast (drop (bracket_index + 1) sublabel)) of
                   None \<Rightarrow> Inl ValueError
                 | Some n \<Rightarrow> Inr (take bracket_index sublabel, n))))"

fun process_sublabels ::
  "string list \<Rightarrow> string list \<Rightarrow> int list \<Rightarrow> py_error + (string list \<times> int list)" where
  "process_sublabels [] categories annotation_indexes = Inr (categories, annotation_indexes)"
| "process_sublabels (sublabel # rest) categories annotation_indexes =
     (case process_sublabel sublabel of
        Inl e \<Rightarrow> Inl e
      | Inr (category, index) \<Rightarrow>
          process_sublabels rest (categories @ [category]) (annotation_indexes @ [index]))"

definition process_compound_label :: "string \<Rightarrow> py_error + (string list \<times> int list)" where
  "process_compound_label label = process_sublabels (split_on (CHR ''|'') label) [] []"

section \<open>Sentence-level renumbering\<close>

text \<open>
  \<^verbatim>\<open>str(n)\<close> of an integer, as an f-string renders it (\<open>digit_char\<close> is only applied
  to numbers below ten).
\<close>

definition digit_char :: "nat \<Rightarrow> char" where
  "digit_char d = ''0123456789'' ! d"

fun str_nat :: "nat \<Rightarrow> string" where
  "str_nat n = (if n < 10 then [digit_char n] else str_nat (n div 10) @ [digit_char (n mod 10)])"

declare str_nat.simps [simp del]

definition str_int :: "int \<Rightarrow> string" where
  "str_int i = (if i < 0 then CHR ''-'' # str_nat (nat (- i)) else str_nat (nat i))"

text \<open>
  The cells a row of the export is read for: the sentence number (the text of cell 0
  before its first hyphen), the token (cell 2) and the label (cell 4).
\<close>

definition row_cells :: "string \<Rightarrow> py_error + (string \<times> string \<times> string)" where
  "row_cells row =
     (let cells = split_on (CHR 0x09) row in
      case getitem cells 0 of
        Inl e \<Rightarrow> Inl e
      | Inr cell0 \<Rightarrow>
          (case str_index cell0 (CHR ''-'') of
             Inl e \<Rightarrow> Inl e
           | Inr hyphen \<Rightarrow>
               (case getitem cells 2 of
                  Inl e \<Rightarrow> Inl e
                | Inr token \<Rightarrow>
                    (case getitem cells 4 of
                       Inl e \<Rightarrow> Inl e
                     | Inr label \<Rightarrow> Inr (take hyphen cell0, token, label)))))"

text \<open>The inner loop of \<^verbatim>\<open>process_sentence\<close>, which builds \<^verbatim>\<open>new_label\<close>.\<close>

fun relabel :: "int \<Rightarrow> (string \<times> int) list \<Rightarrow> string \<Rightarrow> string" where
  "relabel index_offset [] new_label = new_label"
| "relabel index_offset ((category, index) # rest) new_label =
     (if index = - 1
      then relabel index_offset rest (new_label @ category @ '':'' @ str_int index @ ''|'')
      else relabel index_offset rest
             (new_label @ category @ '':'' @ str_int (index - index_offset) @ ''|''))"

text \<open>
  The body of the loop over the rows: from a row and the current \<open>index_offset\<close>
  (which starts at the marker \<open>-1000000\<close>) to the offset after the row and the
  simplified row appended.
\<close>

definition process_row :: "string \<Rightarrow> int \<Rightarrow> py_error + (int \<times> string)" where
  "process_row row index_offset =
     (case row_cells row of
        Inl e \<Rightarrow> Inl e
      | Inr (sent_num, token, label) \<Rightarrow>
          if label = ''_''
          then Inr (index_offset, sent_num @ [CHR 0x09] @ token @ [CHR 0x09] @ ''_'')
          else
            (case process_compound_label label of
               Inl e \<Rightarrow> Inl e
             | Inr (categories, annotation_indexes) \<Rightarrow>
                 (case (if index_offset = - 1000000
                        then (case getitem annotation_indexes 0 of
                                Inl e \<Rightarrow> Inl e
                              | Inr first \<Rightarrow> Inr (first - 1))
                        else Inr index_offset) of
                    Inl e \<Rightarrow> Inl e
                  | Inr index_offset' \<Rightarrow>
                      Inr (index_offset',
                           sent_num @ [CHR 0x09] @ token @ [CHR 0x09] @
                           butlast (relabel index_offset' (zip categories annotation_indexes) [])))))"

fun process_rows :: "string list \<Rightarrow> int \<Rightarrow> string list \<Rightarrow> py_error + string list" where
  "process_rows [] index_offset simplified_rows = Inr simplified_rows"
| "process_rows (row # tsv_rows) index_offset simplified_rows =
     (case process_row row index_offset of
        Inl e \<Rightarrow> Inl e
      | Inr (index_offset', simplified) \<Rightarrow>
          process_rows tsv_rows index_offset' (simplified_rows @ [simplified]))"

definition process_sentence :: "string list \<Rightarrow> py_error + string list" where
  "process_sentence tsv_rows = process_rows tsv_rows (- 1000000) []"

section \<open>Span aggregation over simplified rows\<close>

text \<open>
  \<^verbatim>\<open>get_annotations(sentence, annotation_column)\<close>: a token is the list of cells of a
  simplified row, a span is \<^verbatim>\<open>[category, start, stop]\<close> with positions counted by
  \<^verbatim>\<open>enumerate\<close>.  The dictionary \<^verbatim>\<open>indexed_annotations\<close> keeps insertion order, so it is
  an association list in order of first insertion; its keys are the annotation texts.
  \<open>printed\<close> collects what \<^verbatim>\<open>print\<close> writes.
\<close>

type_synonym span = "string \<times> nat \<times> nat"

record agg_state =
  annotations :: "span list"
  indexed_annotations :: "(string \<times> span) list"
  printed :: "string list list"

text \<open>One pass of the inner loop over the sub-labels of a token.\<close>

definition index_annotation ::
  "nat \<Rightarrow> string \<Rightarrow> (string \<times> span) list \<Rightarrow> py_error + (string \<times> span) list" where
  "index_annotation i annotation indexed =
     (case split_on (CHR '':'') annotation of
        [category, index] \<Rightarrow>
          (case py_int index of
             None \<Rightarrow> Inl ValueError
           | Some n \<Rightarrow>
               if annotation \<notin> set (map fst indexed)
               then Inr (indexed @ [(annotation, (category, i, i))])
               else Inr (map (\<lambda>(key, (c, start, stop)).
                               if key = annotation then (key, (c, start, i))
                               else (key, (c, start, stop))) indexed))
      | _ \<Rightarrow> Inl ValueError)"

fun index_annotations ::
  "nat \<Rightarrow> string list \<Rightarrow> (string \<times> span) list \<Rightarrow> py_error + (string \<times> span) list" where
  "index_annotations i [] indexed = Inr indexed"
| "index_annotations i (annotation # token_annotations) indexed =
     (case index_annotation i annotation indexed of
        Inl e \<Rightarrow> Inl e
      | Inr indexed' \<Rightarrow> index_annotations i token_annotations indexed')"

text \<open>The body of the loop over the tokens either goes on to the next token or breaks.\<close>

datatype 'a flow = Next 'a | Break 'a

definition scan_token :: "int \<Rightarrow> nat \<Rightarrow> string list \<Rightarrow> agg_state \<Rightarrow> py_error + agg_state flow" where
  "scan_token annotation_column i token st =
     (case getitem token annotation_column of
        Inl e \<Rightarrow> Inl e
      | Inr label \<Rightarrow>
          if CHR ''*'' \<in> set label then Inr (Break (st\<lparr>printed := printed st @ [token]\<rparr>))
          else if label = ''_'' then Inr (Next st)
          else if str_contains ''-1'' label then
            (case str_index label (CHR '':'') of
               Inl e \<Rightarrow> Inl e
             | Inr colon \<Rightarrow>
                 Inr (Next (st\<lparr>annotations := annotations st @ [(take colon label, i, i)]\<rparr>)))
          else
            (case index_annotations i (split_on (CHR ''|'') label) (indexed_annotations st) of
               Inl e \<Rightarrow> Inl e
             | Inr indexed \<Rightarrow> Inr (Next (st\<lparr>indexed_annotations := indexed\<rparr>))))"

fun scan_tokens :: "int \<Rightarrow> nat \<Rightarrow> string list list \<Rightarrow> agg_state \<Rightarrow> py_error + agg_state" where
  "scan_tokens annotation_column i [] st = Inr st"
| "scan_tokens annotation_column i (token # sentence) st =
     (case scan_token annotation_column i token st of
        Inl e \<Rightarrow> Inl e
      | Inr (Break st') \<Rightarrow> Inr st'
      | Inr (Next st') \<Rightarrow> scan_tokens annotation_column (Suc i) sentence st')"

definition get_annotations :: "string list list \<Rightarrow> int \<Rightarrow> py_error + span list" where
  "get_annotations sentence annotation_column =
     (case scan_tokens annotation_column 0 sentence
             \<lparr>annotations = [], indexed_annotations = [], printed = []\<rparr> of
        Inl e \<Rightarrow> Inl e
      | Inr st \<Rightarrow> Inr (annotations st @ map snd (indexed_annotations st)))"


subsection \<open>The branches of the loop body, as lists\<close>

text \<open>
  What one pass of the loop body of \<^verbatim>\<open>get_annotations\<close> does with the label at position
  \<open>i\<close>, read off its \<^verbatim>\<open>if\<close>/\<^verbatim>\<open>elif\<close>/\<^verbatim>\<open>else\<close> chain.  The branch \<^verbatim>\<open>elif "-1" in label\<close> tests
  the whole label: a label with the text \<open>-1\<close> anywhere in it appends one span, under the
  text before the first colon of the label, and none of its sub-labels reaches the
  dictionary.  Only the \<^verbatim>\<open>else\<close> branch splits the label, and it files each sub-label
  under the sub-label's own text.  These lists follow the branches of the code; they are
  not the rule of the specification, which goes reference by reference.
\<close>

definition label_appended :: "nat \<Rightarrow> string \<Rightarrow> span list" where
  "label_appended i label =
     (if label \<noteq> ''_'' \<and> str_contains ''-1'' label
      then [(takeWhile (\<lambda>c. c \<noteq> CHR '':'') label, i, i)] else [])"

definition label_indexed :: "nat \<Rightarrow> string \<Rightarrow> (string \<times> string \<times> nat) list" where
  "label_indexed i label =
     (if label = ''_'' \<or> str_contains ''-1'' label then []
      else map (\<lambda>annotation. (annotation, takeWhile (\<lambda>c. c \<noteq> CHR '':'') annotation, i))
             (split_on (CHR ''|'') label))"

definition rows_appended :: "nat \<Rightarrow> string list \<Rightarrow> span list" where
  "rows_appended i labels = concat (map (\<lambda>(j, label). label_appended j label) (enumerate i labels))"

definition rows_indexed :: "nat \<Rightarrow> string list \<Rightarrow> (string \<times> string \<times> nat) list" where
  "rows_indexed i labels =
     concat (map (\<lambda>(j, label). label_indexed j label) (enumerate i labels))"



section \<open>The document object model\<close>

record TokenAnnotation =
  ta_category :: string
  ta_id :: int
  ta_annotator :: string

record Annotation =
  a_category :: string
  a_start :: int
  a_end :: int
  a_annotator :: string

record Token =
  t_text :: string
  t_id :: int
  t_annotations :: "TokenAnnotation list"

record Sentence =
  s_id :: "int option"
  s_tokens :: "Token list"

text \<open>
  \<^verbatim>\<open>Sentence.get_annotations(annotator)\<close>.  The dictionary is keyed by the annotation id;
  a new \<^verbatim>\<open>Annotation\<close> takes the default annotator, the empty string.
\<close>

record obj_state =
  o_annotations :: "Annotation list"
  o_indexed :: "(int \<times> Annotation) list"

definition scan_token_annotation :: "string \<Rightarrow> int \<Rightarrow> TokenAnnotation \<Rightarrow> obj_state \<Rightarrow> obj_state" where
  "scan_token_annotation annotator token_id token_annotation st =
     (if ta_annotator token_annotation = annotator then
        if ta_id token_annotation = - 1 then
          st\<lparr>o_annotations := o_annotations st @
              [\<lparr>a_category = ta_category token_annotation, a_start = token_id,
                a_end = token_id, a_annotator = ''''\<rparr>]\<rparr>
        else if ta_id token_annotation \<notin> set (map fst (o_indexed st)) then
          st\<lparr>o_indexed := o_indexed st @
              [(ta_id token_annotation,
                \<lparr>a_category = ta_category token_annotation, a_start = token_id,
                 a_end = token_id, a_annotator = ''''\<rparr>)]\<rparr>
        else
          st\<lparr>o_indexed :=
               map (\<lambda>(key, annotation).
                      if key = ta_id token_annotation then (key, annotation\<lparr>a_end := token_id\<rparr>)
                      else (key, annotation)) (o_indexed st)\<rparr>
      else st)"

fun scan_token_annotations ::
  "string \<Rightarrow> int \<Rightarrow> TokenAnnotation list \<Rightarrow> obj_state \<Rightarrow> obj_state" where
  "scan_token_annotations annotator token_id [] st = st"
| "scan_token_annotations annotator token_id (token_annotation # rest) st =
     scan_token_annotations annotator token_id rest
       (scan_token_annotation annotator token_id token_annotation st)"

fun scan_sentence :: "string \<Rightarrow> Token list \<Rightarrow> obj_state \<Rightarrow> obj_state" where
  "scan_sentence annotator [] st = st"
| "scan_sentence annotator (token # tokens) st =
     scan_sentence annotator tokens
       (scan_token_annotations annotator (t_id token) (t_annotations token) st)"

definition Sentence_get_annotations :: "Sentence \<Rightarrow> string \<Rightarrow> Annotation list" where
  "Sentence_get_annotations self annotator =
     (let st = scan_sentence annotator (s_tokens self) \<lparr>o_annotations = [], o_indexed = []\<rparr>
      in o_annotations st @ map snd (o_indexed st))"

section \<open>Specification-side notions\<close>

subsection \<open>Labels in the export's format\<close>

fun join_with :: "char \<Rightarrow> string list \<Rightarrow> string" where
  "join_with sep [] = []"
| "join_with sep [x] = x"
| "join_with sep (x # y # ys) = x @ sep # join_with sep (y # ys)"

datatype sublabel_form = Bare string | Indexed string string

fun render_sublabel :: "sublabel_form \<Rightarrow> string" where
  "render_sublabel (Bare c) = c"
| "render_sublabel (Indexed c ds) = c @ ''['' @ ds @ '']''"

definition decimal_value :: "string \<Rightarrow> nat" where
  "decimal_value ds = foldl (\<lambda>acc c. 10 * acc + (case digit_of c of None \<Rightarrow> 0 | Some d \<Rightarrow> d)) 0 ds"

fun form_category :: "sublabel_form \<Rightarrow> string" where
  "form_category (Bare c) = c"
| "form_category (Indexed c ds) = c"

fun form_id :: "sublabel_form \<Rightarrow> int" where
  "form_id (Bare c) = - 1"
| "form_id (Indexed c ds) = int (decimal_value ds)"

fun wf_form :: "sublabel_form \<Rightarrow> bool" where
  "wf_form (Bare c) = (CHR ''['' \<notin> set c \<and> CHR ''|'' \<notin> set c)"
| "wf_form (Indexed c ds) =
     (CHR ''['' \<notin> set c \<and> CHR ''|'' \<notin> set c \<and> ds \<noteq> [] \<and> list_all (\<lambda>d. digit_of d \<noteq> None) ds)"

subsection \<open>Texts read as an integer\<close>

text \<open>
  An integer text, as the conversion reads one: once the surrounding whitespace and one
  leading sign are taken away, what is left is not empty, consists of decimal digits and
  underscores, neither starts nor ends with an underscore and has no two underscores in
  a row.
\<close>

definition decimal_digit :: "char \<Rightarrow> bool" where
  "decimal_digit c \<longleftrightarrow> c \<in> set ''0123456789''"

definition unsigned_text :: "string \<Rightarrow> string" where
  "unsigned_text s =
     (if s \<noteq> [] \<and> (hd s = CHR ''+'' \<or> hd s = CHR ''-'') then tl s else s)"

definition digit_groups :: "string \<Rightarrow> bool" where
  "digit_groups s \<longleftrightarrow>
     s \<noteq> [] \<and> list_all (\<lambda>c. decimal_digit c \<or> c = CHR ''_'') s
     \<and> hd s \<noteq> CHR ''_'' \<and> last s \<noteq> CHR ''_'' \<and> \<not> str_contains ''__'' s"

definition integer_text :: "string \<Rightarrow> bool" where
  "integer_text s \<longleftrightarrow> digit_groups (unsigned_text (int_strip s))"

subsection \<open>Rows as the renumbering reads them\<close>

text \<open>
  A row as the renumbering reads it: sentence number, token, and the parsed label
  (\<open>None\<close> for the label \<open>_\<close>, otherwise the pairs of category and id in sub-label
  order).
\<close>

type_synonym parsed_row = "string \<times> string \<times> (string \<times> int) list option"

fun row_parses_to :: "string \<Rightarrow> parsed_row \<Rightarrow> bool" where
  "row_parses_to row (sent_num, token, refs) =
     (case row_cells row of
        Inl e \<Rightarrow> False
      | Inr (sent_num', token', label) \<Rightarrow>
          sent_num' = sent_num \<and> token' = token \<and>
          (case refs of
             None \<Rightarrow> label = ''_''
           | Some rs \<Rightarrow>
               label \<noteq> ''_'' \<and> process_compound_label label = Inr (map fst rs, map snd rs)))"

text \<open>The first annotation id of the first label that is not \<open>_\<close>.\<close>

fun first_annotation_id :: "parsed_row list \<Rightarrow> int option" where
  "first_annotation_id [] = None"
| "first_annotation_id ((sent_num, token, None) # ps) = first_annotation_id ps"
| "first_annotation_id ((sent_num, token, Some rs) # ps) =
     (case rs of [] \<Rightarrow> None | r # _ \<Rightarrow> Some (snd r))"

text \<open>An id after renumbering with a given offset: the sentinel stays, the others shift.\<close>

definition local_id :: "int \<Rightarrow> int \<Rightarrow> int" where
  "local_id offset i = (if i = - 1 then - 1 else i - offset)"

fun simplified_row :: "(int \<Rightarrow> int) \<Rightarrow> parsed_row \<Rightarrow> string" where
  "simplified_row f (sent_num, token, None) = sent_num @ [CHR 0x09] @ token @ [CHR 0x09] @ ''_''"
| "simplified_row f (sent_num, token, Some rs) =
     sent_num @ [CHR 0x09] @ token @ [CHR 0x09] @
     join_with (CHR ''|'') (map (\<lambda>(category, i). category @ '':'' @ str_int (f i)) rs)"

definition ids_in_format :: "parsed_row \<Rightarrow> bool" where
  "ids_in_format p =
     (case snd (snd p) of None \<Rightarrow> True | Some rs \<Rightarrow> list_all (\<lambda>r. - 1 \<le> snd r) rs)"

text \<open>
  The offset of a sentence, as specified: the first annotation id of the first label
  that is not \<open>_\<close>, minus one (when every label is \<open>_\<close> no id is ever shifted, and
  the value is the marker the code starts from).
\<close>

definition sentence_offset :: "parsed_row list \<Rightarrow> int" where
  "sentence_offset ps = (case first_annotation_id ps of None \<Rightarrow> - 1000000 | Some i \<Rightarrow> i - 1)"

text \<open>The first label of a sentence's rows that is not \<open>_\<close>.\<close>

fun first_label :: "string list \<Rightarrow> string option" where
  "first_label [] = None"
| "first_label (row # rows) =
     (case row_cells row of
        Inl e \<Rightarrow> None
      | Inr (sent_num, token, label) \<Rightarrow> if label = ''_'' then first_label rows else Some label)"

subsection \<open>Scan states and example streams\<close>



text \<open>
  The stream of the ordering example: a standalone \<open>Cue\<close> on token 0, a \<open>Quote\<close> with
  id 7 on tokens 1 and 2, a standalone \<open>Cue\<close> on token 3; as simplified rows and as a
  sentence object annotated by \<open>alice\<close>.
\<close>

definition example_rows :: "string list list" where
  "example_rows =
     [[''1'', ''a'', ''Cue:-1''], [''1'', ''b'', ''Quote:7''],
      [''1'', ''c'', ''Quote:7''], [''1'', ''d'', ''Cue:-1'']]"

definition example_sentence :: Sentence where
  "example_sentence =
     \<lparr>s_id = Some 0,
      s_tokens =
        [\<lparr>t_text = ''a'', t_id = 0, t_annotations =
            [\<lparr>ta_category = ''Cue'', ta_id = - 1, ta_annotator = ''alice''\<rparr>]\<rparr>,
         \<lparr>t_text = ''b'', t_id = 1, t_annotations =
            [\<lparr>ta_category = ''Quote'', ta_id = 7, ta_annotator = ''alice''\<rparr>]\<rparr>,
         \<lparr>t_text = ''c'', t_id = 2, t_annotations =
            [\<lparr>ta_category = ''Quote'', ta_id = 7, ta_annotator = ''alice''\<rparr>]\<rparr>,
         \<lparr>t_text = ''d'', t_id = 3, t_annotations =
            [\<lparr>ta_category = ''Cue'', ta_id = - 1, ta_annotator = ''alice''\<rparr>]\<rparr>]\<rparr>"

text \<open>The accumulator entries are well ordered and end no later than position \<open>i\<close>.\<close>

definition indexed_upto :: "nat \<Rightarrow> (string \<times> span) list \<Rightarrow> bool" where
  "indexed_upto i indexed = list_all (\<lambda>(key, (c, start, stop)). start \<le> stop \<and> stop \<le> i) indexed"

definition spans_ordered :: "span list \<Rightarrow> bool" where
  "spans_ordered spans = list_all (\<lambda>(c, start, stop). start \<le> stop) spans"

definition obj_indexed_upto :: "int \<Rightarrow> (int \<times> Annotation) list \<Rightarrow> bool" where
  "obj_indexed_upto b indexed = list_all (\<lambda>(key, an). a_start an \<le> a_end an \<and> a_end an \<le> b) indexed"

text \<open>
  What a sentence holds for one annotator: the pairs of token id and annotation with
  that annotator, in scan order.
\<close>

definition annotator_view :: "string \<Rightarrow> Token list \<Rightarrow> (int \<times> TokenAnnotation) list" where
  "annotator_view annotator tokens =
     concat (map (\<lambda>token. map (\<lambda>ta. (t_id token, ta))
                    (filter (\<lambda>ta. ta_annotator ta = annotator) (t_annotations token))) tokens)"

text \<open>A sentence with the annotations of every other annotator removed.\<close>

definition only_annotator :: "string \<Rightarrow> Sentence \<Rightarrow> Sentence" where
  "only_annotator annotator self =
     self\<lparr>s_tokens :=
       map (\<lambda>token. token\<lparr>t_annotations :=
              filter (\<lambda>ta. ta_annotator ta = annotator) (t_annotations token)\<rparr>) (s_tokens self)\<rparr>"

text \<open>
  Two sentences for the annotator example: \<open>alice\<close> marks a \<open>Quote\<close> with id 1 on tokens
  0 and 1; in the first sentence \<open>bob\<close> also uses the id 1, on tokens 1 and 2.
\<close>

definition shared_id_sentence :: Sentence where
  "shared_id_sentence =
     \<lparr>s_id = Some 0,
      s_tokens =
        [\<lparr>t_text = ''a'', t_id = 0, t_annotations =
            [\<lparr>ta_category = ''Quote'', ta_id = 1, ta_annotator = ''alice''\<rparr>]\<rparr>,
         \<lparr>t_text = ''b'', t_id = 1, t_annotations =
            [\<lparr>ta_category = ''Term'', ta_id = 1, ta_annotator = ''bob''\<rparr>,
             \<lparr>ta_category = ''Quote'', ta_id = 1, ta_annotator = ''alice''\<rparr>]\<rparr>,
         \<lparr>t_text = ''c'', t_id = 2, t_annotations =
            [\<lparr>ta_category = ''Term'', ta_id = 1, ta_annotator = ''bob''\<rparr>]\<rparr>]\<rparr>"

definition alice_only_sentence :: Sentence where
  "alice_only_sentence =
     \<lparr>s_id = Some 5,
      s_tokens =
        [\<lparr>t_text = ''x'', t_id = 0, t_annotations =
            [\<lparr>ta_category = ''Quote'', ta_id = 1, ta_annotator = ''alice''\<rparr>]\<rparr>,
         \<lparr>t_text = ''y'', t_id = 1, t_annotations =
            [\<lparr>ta_category = ''Quote'', ta_id = 1, ta_annotator = ''alice''\<rparr>]\<rparr>]\<rparr>"

subsection \<open>Spans in order of first occurrence\<close>

text \<open>The distinct keys of a list, in order of first occurrence.\<close>

fun first_seen :: "'k list \<Rightarrow> 'k list" where
  "first_seen [] = []"
| "first_seen (k # ks) = k # removeAll k (first_seen ks)"

text \<open>
  An occurrence is a key with a category and a position.  The span of a key takes its
  category and start from the first occurrence of the key and its end from the last.
\<close>

definition group_span :: "('k \<times> string \<times> 'p) list \<Rightarrow> 'k \<Rightarrow> string \<times> 'p \<times> 'p" where
  "group_span occs k =
     (let hits = filter (\<lambda>occ. fst occ = k) occs
      in (fst (snd (hd hits)), snd (snd (hd hits)), snd (snd (last hits))))"

definition grouped_spans :: "('k \<times> string \<times> 'p) list \<Rightarrow> (string \<times> 'p \<times> 'p) list" where
  "grouped_spans occs = map (group_span occs) (first_seen (map fst occs))"

text \<open>One step of an accumulator in insertion order: open the key or move its end.\<close>

definition upsert ::
  "'k \<times> string \<times> 'p \<Rightarrow> ('k \<times> string \<times> 'p \<times> 'p) list \<Rightarrow> ('k \<times> string \<times> 'p \<times> 'p) list" where
  "upsert occ acc =
     (case occ of (k, c, p) \<Rightarrow>
        if k \<notin> set (map fst acc) then acc @ [(k, c, p, p)]
        else map (\<lambda>(k', c', start, stop).
                    if k' = k then (k', c', start, p) else (k', c', start, stop)) acc)"

text \<open>
  The rule of the specification, reference by reference, on the references of one
  annotator in a sentence: every reference with the sentinel id is a span emitted at
  once, at its token; every other reference is an occurrence of its id at its token.
\<close>

definition sentence_sentinels :: "string \<Rightarrow> Token list \<Rightarrow> (string \<times> int \<times> int) list" where
  "sentence_sentinels annotator tokens =
     map (\<lambda>(tid, ta). (ta_category ta, tid, tid))
       (filter (\<lambda>(tid, ta). ta_id ta = - 1) (annotator_view annotator tokens))"

definition sentence_occurrences :: "string \<Rightarrow> Token list \<Rightarrow> (int \<times> string \<times> int) list" where
  "sentence_occurrences annotator tokens =
     map (\<lambda>(tid, ta). (ta_id ta, ta_category ta, tid))
       (filter (\<lambda>(tid, ta). ta_id ta \<noteq> - 1) (annotator_view annotator tokens))"

definition as_annotation :: "string \<times> int \<times> int \<Rightarrow> Annotation" where
  "as_annotation span =
     (case span of (c, start, stop) \<Rightarrow>
        \<lparr>a_category = c, a_start = start, a_end = stop, a_annotator = ''''\<rparr>)"

text \<open>An accumulator entry of the object model, as key, category, start and end.\<close>

definition entry_of :: "int \<times> Annotation \<Rightarrow> int \<times> string \<times> int \<times> int" where
  "entry_of e = (fst e, a_category (snd e), a_start (snd e), a_end (snd e))"

text \<open>
  A token that carries a standalone \<open>Cue\<close> and a \<open>Quote\<close> with id 1, followed by a token
  that continues the \<open>Quote\<close>; as simplified rows and as a sentence object.
\<close>

definition mixed_rows :: "string list list" where
  "mixed_rows = [[''1'', ''a'', ''Cue:-1|Quote:1''], [''1'', ''b'', ''Quote:1'']]"

definition mixed_sentence :: Sentence where
  "mixed_sentence =
     \<lparr>s_id = Some 0,
      s_tokens =
        [\<lparr>t_text = ''a'', t_id = 0, t_annotations =
            [\<lparr>ta_category = ''Cue'', ta_id = - 1, ta_annotator = ''alice''\<rparr>,
             \<lparr>ta_category = ''Quote'', ta_id = 1, ta_annotator = ''alice''\<rparr>]\<rparr>,
         \<lparr>t_text = ''b'', t_id = 1, t_annotations =
            [\<lparr>ta_category = ''Quote'', ta_id = 1, ta_annotator = ''alice''\<rparr>]\<rparr>]\<rparr>"

subsection \<open>Equivalent inputs of the two aggregators\<close>

text \<open>
  Equivalent inputs of the two aggregators.  A reference is written \<open>category:id\<close>, the
  references of a token are joined by \<open>|\<close>, and a token without references has the
  label \<open>_\<close>; the rows carry, token by token, the label of the chosen annotator's
  references.
\<close>

definition render_ref :: "TokenAnnotation \<Rightarrow> string" where
  "render_ref ta = ta_category ta @ '':'' @ str_int (ta_id ta)"

definition render_label :: "TokenAnnotation list \<Rightarrow> string" where
  "render_label tas = (if tas = [] then ''_'' else join_with (CHR ''|'') (map render_ref tas))"

definition token_refs :: "string \<Rightarrow> Token \<Rightarrow> TokenAnnotation list" where
  "token_refs annotator token =
     filter (\<lambda>ta. ta_annotator ta = annotator) (t_annotations token)"

definition rows_render :: "int \<Rightarrow> string \<Rightarrow> string list list \<Rightarrow> Token list \<Rightarrow> bool" where
  "rows_render col annotator rows tokens =
     list_all2 (\<lambda>row token. getitem row col = Inr (render_label (token_refs annotator token)))
       rows tokens"

text \<open>
  The inputs on which the two aggregators are compared: a category is free of the
  characters and of the text the row format gives a meaning to; an id is the sentinel
  or non-negative; a sentinel reference is the only reference of its token; and an id
  other than the sentinel goes with one category throughout the sentence.
\<close>

definition plain_category :: "string \<Rightarrow> bool" where
  "plain_category c \<longleftrightarrow>
     CHR '':'' \<notin> set c \<and> CHR ''|'' \<notin> set c \<and> CHR ''*'' \<notin> set c \<and> \<not> str_contains ''-1'' c"

definition plain_refs :: "TokenAnnotation list \<Rightarrow> bool" where
  "plain_refs tas \<longleftrightarrow>
     (\<forall>ta\<in>set tas. plain_category (ta_category ta) \<and> - 1 \<le> ta_id ta
                    \<and> (ta_id ta = - 1 \<longrightarrow> tas = [ta]))"

definition one_category_per_id :: "TokenAnnotation list \<Rightarrow> bool" where
  "one_category_per_id tas \<longleftrightarrow>
     (\<forall>ta\<in>set tas. \<forall>ta'\<in>set tas.
        ta_id ta = ta_id ta' \<and> ta_id ta \<noteq> - 1 \<longrightarrow> ta_category ta = ta_category ta')"

definition comparable :: "string \<Rightarrow> Token list \<Rightarrow> bool" where
  "comparable annotator tokens \<longleftrightarrow>
     map t_id tokens = map int [0..<length tokens]
     \<and> (\<forall>token\<in>set tokens. plain_refs (token_refs annotator token))
     \<and> one_category_per_id (concat (map (token_refs annotator) tokens))"

text \<open>A span over row positions, as a span over token ids.\<close>

definition int_span :: "span \<Rightarrow> string \<times> int \<times> int" where
  "int_span sp = (case sp of (c, start, stop) \<Rightarrow> (c, int start, int stop))"

text \<open>
  Two tokens whose references share the id 1 under different categories; as simplified
  rows and as a sentence object.
\<close>

definition shared_key_rows :: "string list list" where
  "shared_key_rows = [[''1'', ''a'', ''A:1''], [''1'', ''b'', ''B:1'']]"

definition shared_key_sentence :: Sentence where
  "shared_key_sentence =
     \<lparr>s_id = Some 0,
      s_tokens =
        [\<lparr>t_text = ''a'', t_id = 0, t_annotations =
            [\<lparr>ta_category = ''A'', ta_id = 1, ta_annotator = ''alice''\<rparr>]\<rparr>,
         \<lparr>t_text = ''b'', t_id = 1, t_annotations =
            [\<lparr>ta_category = ''B'', ta_id = 1, ta_annotator = ''alice''\<rparr>]\<rparr>]\<rparr>"

text \<open>
  Two rows of an export in which the second token carries a \<open>Quote\<close> with id 5 and a
  standalone \<open>Cue\<close>.
\<close>

definition exported_rows :: "string list" where
  "exported_rows =
     [join_with (CHR 0x09) [''1-1'', ''0-1'', ''a'', ''_'', ''Quote[5]''],
      join_with (CHR 0x09) [''1-2'', ''2-3'', ''b'', ''_'', ''Quote[5]|Cue'']]"

text \<open>
  A token that carries a \<open>Quote\<close> with id 1 and then a standalone \<open>Cue\<close>, followed by a
  token that continues the \<open>Quote\<close>; and a token that carries two standalone references.
  Each as simplified rows and as a sentence object.
\<close>

definition late_sentinel_rows :: "string list list" where
  "late_sentinel_rows = [[''1'', ''a'', ''Quote:1|Cue:-1''], [''1'', ''b'', ''Quote:1'']]"

definition late_sentinel_sentence :: Sentence where
  "late_sentinel_sentence =
     \<lparr>s_id = Some 0,
      s_tokens =
        [\<lparr>t_text = ''a'', t_id = 0, t_annotations =
            [\<lparr>ta_category = ''Quote'', ta_id = 1, ta_annotator = ''alice''\<rparr>,
             \<lparr>ta_category = ''Cue'', ta_id = - 1, ta_annotator = ''alice''\<rparr>]\<rparr>,
         \<lparr>t_text = ''b'', t_id = 1, t_annotations =
            [\<lparr>ta_category = ''Quote'', ta_id = 1, ta_annotator = ''alice''\<rparr>]\<rparr>]\<rparr>"

definition two_sentinel_rows :: "string list list" where
  "two_sentinel_rows = [[''1'', ''a'', ''Cue:-1|Note:-1'']]"

definition two_sentinel_sentence :: Sentence where
  "two_sentinel_sentence =
     \<lparr>s_id = Some 0,
      s_tokens =
        [\<lparr>t_text = ''a'', t_id = 0, t_annotations =
            [\<lparr>ta_category = ''Cue'', ta_id = - 1, ta_annotator = ''alice''\<rparr>,
             \<lparr>ta_category = ''Note'', ta_id = - 1, ta_annotator = ''alice''\<rparr>]\<rparr>]\<rparr>"

section \<open>The compound label parser\<close>

lemma split_on_not_Nil [simp]: "split_on sep s \<noteq> []"
  by (induction s) (auto split: list.splits)

lemma split_on_no_sep: "sep \<notin> set x \<Longrightarrow> split_on sep x = [x]"
  by (induction x) auto

lemma split_on_append_sep:
  "sep \<notin> set x \<Longrightarrow> split_on sep (x @ sep # r) = x # split_on sep r"
  by (induction x) auto

lemma split_on_join_with:
  "xs \<noteq> [] \<Longrightarrow> \<forall>x\<in>set xs. sep \<notin> set x \<Longrightarrow> split_on sep (join_with sep xs) = xs"
  by (induction sep xs rule: join_with.induct) (auto simp: split_on_no_sep split_on_append_sep)

lemma str_index_first:
  "c \<notin> set x \<Longrightarrow> str_index (x @ c # r) c = Inr (length x)"
  by (induction x) auto

lemma str_index_takeWhile:
  "c \<in> set s \<Longrightarrow> str_index s c = Inr (length (takeWhile (\<lambda>x. x \<noteq> c) s))"
  by (induction s) auto

lemma int_digits_all_digits:
  "list_all (\<lambda>d. digit_of d \<noteq> None) ds \<Longrightarrow> ds \<noteq> [] \<or> b \<Longrightarrow>
   int_digits acc b ds =
     Some (foldl (\<lambda>acc c. 10 * acc + (case digit_of c of None \<Rightarrow> 0 | Some d \<Rightarrow> d)) acc ds)"
proof (induction ds arbitrary: acc b)
  case Nil
  then show ?case by simp
next
  case (Cons c cs)
  then obtain d where d: "digit_of c = Some d" by auto
  then have "c \<noteq> CHR ''_''" by (auto simp: digit_of_def)
  with Cons d show ?case by simp
qed

lemma digit_not_space: "digit_of c \<noteq> None \<Longrightarrow> \<not> int_space c"
  by (auto simp: digit_of_def int_space_def split: if_splits)

lemma int_strip_digits:
  assumes "list_all (\<lambda>d. digit_of d \<noteq> None) ds"
  shows "int_strip ds = ds"
proof (cases ds rule: rev_cases)
  case Nil
  then show ?thesis by (simp add: int_strip_def)
next
  case (snoc ys y)
  with assms have "\<not> int_space y" by (simp add: digit_not_space)
  moreover from assms have "dropWhile int_space ds = ds"
    by (cases ds) (auto simp: digit_not_space)
  ultimately show ?thesis using snoc by (simp add: int_strip_def)
qed

lemma py_int_digits:
  assumes "list_all (\<lambda>d. digit_of d \<noteq> None) ds" "ds \<noteq> []"
  shows "py_int ds = Some (int (decimal_value ds))"
proof -
  obtain c cs where ds: "ds = c # cs" using assms(2) by (cases ds) auto
  with assms(1) have "digit_of c \<noteq> None" by simp
  then have "c \<noteq> CHR ''-''" "c \<noteq> CHR ''+''" by (auto simp: digit_of_def)
  then show ?thesis
    using int_digits_all_digits[OF assms(1), of False 0] assms(2) int_strip_digits[OF assms(1)] ds
    by (simp add: py_int_def decimal_value_def)
qed

lemma process_sublabel_render:
  assumes "wf_form f"
  shows "process_sublabel (render_sublabel f) = Inr (form_category f, form_id f)"
proof (cases f)
  case (Bare c)
  with assms show ?thesis by (simp add: process_sublabel_def)
next
  case (Indexed c ds)
  with assms have c: "CHR ''['' \<notin> set c" and ds: "list_all (\<lambda>d. digit_of d \<noteq> None) ds" "ds \<noteq> []"
    by simp_all
  have "str_index (c @ CHR ''['' # ds @ '']'') (CHR ''['') = Inr (length c)"
    using c by (rule str_index_first)
  then show ?thesis
    using Indexed py_int_digits[OF ds] by (simp add: process_sublabel_def butlast_append)
qed

lemma process_sublabels_render:
  "\<forall>f\<in>set fs. wf_form f \<Longrightarrow>
   process_sublabels (map render_sublabel fs) cats ids =
     Inr (cats @ map form_category fs, ids @ map form_id fs)"
  by (induction fs arbitrary: cats ids) (auto simp: process_sublabel_render)

lemma digit_of_bar: "digit_of (CHR ''|'') = None"
  by (simp add: digit_of_def)

lemma digits_no_bar: "list_all (\<lambda>d. digit_of d \<noteq> None) ds \<Longrightarrow> CHR ''|'' \<notin> set ds"
  using digit_of_bar by (auto simp: list_all_iff)

lemma render_no_bar: "wf_form f \<Longrightarrow> CHR ''|'' \<notin> set (render_sublabel f)"
  by (cases f) (simp_all add: digits_no_bar)

text \<open>
  Claim C3.  A label that is a \<open>|\<close>-separated list of sub-labels, each either a bare
  category (no \<open>[\<close>) or of the form \<open>Category[N]\<close> with \<open>N\<close> a non-empty run of
  decimal digits, is parsed into two sequences of the same length, in sub-label order:
  a bare sub-label gives the raw text and \<open>-1\<close>, a bracketed one gives the category
  and the value of the digits between the first \<open>[\<close> and the closing \<open>]\<close>.
  At \<open>A[3]|B[3]|C[7]\<close> the categories are \<open>A, B, C\<close> and the ids \<open>3, 3, 7\<close>.
\<close>

theorem process_compound_label_well_formed:
  assumes "fs \<noteq> []" and "\<forall>f\<in>set fs. wf_form f"
  shows "process_compound_label (join_with (CHR ''|'') (map render_sublabel fs)) =
           Inr (map form_category fs, map form_id fs)"
proof -
  have "split_on (CHR ''|'') (join_with (CHR ''|'') (map render_sublabel fs)) = map render_sublabel fs"
    using assms by (intro split_on_join_with) (auto simp: render_no_bar)
  then show ?thesis
    using process_sublabels_render[OF assms(2), of "[]" "[]"]
    by (simp add: process_compound_label_def)
qed

theorem process_compound_label_well_formed_witness:
  "process_compound_label ''A[3]|B[3]|C[7]'' = Inr ([''A'', ''B'', ''C''], [3, 3, 7])"
  using process_compound_label_well_formed
    [of "[Indexed ''A'' ''3'', Indexed ''B'' ''3'', Indexed ''C'' ''7'']"]
  by (simp add: decimal_value_def digit_of_def)

lemma process_sublabel_bracket:
  "CHR ''['' \<in> set sub \<Longrightarrow>
   process_sublabel sub =
     (case py_int (bracket_text sub) of
        None \<Rightarrow> Inl ValueError
      | Some n \<Rightarrow> Inr (takeWhile (\<lambda>c. c \<noteq> CHR ''['') sub, n))"
proof -
  have "take (length (takeWhile (\<lambda>c. c \<noteq> CHR ''['') sub)) sub = takeWhile (\<lambda>c. c \<noteq> CHR ''['') sub"
    by (rule takeWhile_eq_take[symmetric])
  then show "CHR ''['' \<in> set sub \<Longrightarrow> ?thesis"
    by (simp add: process_sublabel_def str_index_takeWhile bracket_text_def split: option.splits)
qed

lemma process_sublabel_error:
  "process_sublabel sub = Inl e \<longleftrightarrow>
     e = ValueError \<and> CHR ''['' \<in> set sub \<and> py_int (bracket_text sub) = None"
  by (cases "CHR ''['' \<in> set sub")
     (auto simp: process_sublabel_bracket split: option.splits, simp add: process_sublabel_def)

lemma process_sublabels_error:
  "process_sublabels subs cats ids = Inl e \<longleftrightarrow>
     e = ValueError \<and> (\<exists>sub\<in>set subs. CHR ''['' \<in> set sub \<and> py_int (bracket_text sub) = None)"
proof (induction subs arbitrary: cats ids)
  case Nil
  then show ?case by simp
next
  case (Cons sub subs)
  show ?case
  proof (cases "process_sublabel sub")
    case (Inl e')
    then show ?thesis using process_sublabel_error[of sub e'] by auto
  next
    case (Inr r)
    then have "\<not> (CHR ''['' \<in> set sub \<and> py_int (bracket_text sub) = None)"
      using process_sublabel_error[of sub ValueError] by auto
    with Inr Cons.IH show ?thesis by (cases r) auto
  qed
qed

lemma digit_of_None_iff: "digit_of c = None \<longleftrightarrow> \<not> decimal_digit c"
  by (auto simp: digit_of_def decimal_digit_def)

lemma underscore_no_digit: "\<not> decimal_digit (CHR ''_'')"
  by (simp add: decimal_digit_def)

lemma str_contains_underscores_Cons:
  "str_contains ''__'' (c # cs) \<longleftrightarrow>
     (c = CHR ''_'' \<and> cs \<noteq> [] \<and> hd cs = CHR ''_'') \<or> str_contains ''__'' cs"
  by (cases cs) auto

lemma int_digits_rejects:
  "int_digits acc b u = None \<longleftrightarrow>
     \<not> (if u = [] then b
        else list_all (\<lambda>c. decimal_digit c \<or> c = CHR ''_'') u \<and> (hd u = CHR ''_'' \<longrightarrow> b)
             \<and> last u \<noteq> CHR ''_'' \<and> \<not> str_contains ''__'' u)"
proof (induction u arbitrary: acc b)
  case Nil
  then show ?case by simp
next
  case (Cons c cs)
  show ?case
  proof (cases "c = CHR ''_''")
    case under: True
    show ?thesis
    proof (cases cs)
      case Nil
      with under show ?thesis by simp
    next
      case (Cons x xs)
      have step: "int_digits acc b (c # cs) =
          (if b \<and> decimal_digit x then int_digits acc False cs else None)"
        using under Cons by (simp add: digit_of_None_iff)
      have ih: "int_digits acc False cs = None \<longleftrightarrow>
          \<not> (list_all (\<lambda>c. decimal_digit c \<or> c = CHR ''_'') cs \<and> x \<noteq> CHR ''_''
             \<and> last cs \<noteq> CHR ''_'' \<and> \<not> str_contains ''__'' cs)"
        using Cons.IH[of acc False] Cons by simp
      have digit: "list_all (\<lambda>c. decimal_digit c \<or> c = CHR ''_'') cs \<and> x \<noteq> CHR ''_''
          \<Longrightarrow> decimal_digit x"
        using Cons by auto
      have goal: "(list_all (\<lambda>c. decimal_digit c \<or> c = CHR ''_'') (c # cs)
            \<and> (hd (c # cs) = CHR ''_'' \<longrightarrow> b) \<and> last (c # cs) \<noteq> CHR ''_''
            \<and> \<not> str_contains ''__'' (c # cs))
          \<longleftrightarrow> (b \<and> list_all (\<lambda>c. decimal_digit c \<or> c = CHR ''_'') cs \<and> x \<noteq> CHR ''_''
             \<and> last cs \<noteq> CHR ''_'' \<and> \<not> str_contains ''__'' cs)"
        using under Cons by (auto simp: str_contains_underscores_Cons)
      show ?thesis
        unfolding step using ih digit goal underscore_no_digit by (cases b; cases "decimal_digit x"; auto)
    qed
  next
    case no_under: False
    show ?thesis
    proof (cases "decimal_digit c")
      case False
      with no_under have "int_digits acc b (c # cs) = None"
        using digit_of_None_iff[of c] by simp
      with False no_under show ?thesis by simp
    next
      case True
      then obtain d where d: "digit_of c = Some d"
        using digit_of_None_iff[of c] by auto
      have step: "int_digits acc b (c # cs) = int_digits (10 * acc + d) True cs"
        using no_under d by simp
      have ih: "int_digits (10 * acc + d) True cs = None \<longleftrightarrow>
          \<not> (if cs = [] then True
             else list_all (\<lambda>c. decimal_digit c \<or> c = CHR ''_'') cs
                  \<and> last cs \<noteq> CHR ''_'' \<and> \<not> str_contains ''__'' cs)"
        using Cons.IH[of "10 * acc + d" True] by simp
      show ?thesis
        unfolding step ih using True no_under
        by (cases cs) (auto simp: str_contains_underscores_Cons)
    qed
  qed
qed

lemma int_digits_digit_groups: "int_digits 0 False u = None \<longleftrightarrow> \<not> digit_groups u"
  unfolding int_digits_rejects digit_groups_def by auto

lemma py_int_rejects: "py_int s = None \<longleftrightarrow> \<not> integer_text s"
proof (cases "int_strip s")
  case Nil
  then show ?thesis by (simp add: py_int_def integer_text_def unsigned_text_def digit_groups_def)
next
  case (Cons c cs)
  show ?thesis
  proof (cases "c = CHR ''+'' \<or> c = CHR ''-''")
    case True
    with Cons have "unsigned_text (int_strip s) = cs" by (simp add: unsigned_text_def)
    moreover from True Cons have "py_int s = None \<longleftrightarrow> int_digits 0 False cs = None"
      by (auto simp: py_int_def)
    ultimately show ?thesis by (simp only: integer_text_def int_digits_digit_groups)
  next
    case False
    with Cons have "unsigned_text (int_strip s) = c # cs" by (simp add: unsigned_text_def)
    moreover from False Cons have "py_int s = None \<longleftrightarrow> int_digits 0 False (c # cs) = None"
      by (auto simp: py_int_def)
    ultimately show ?thesis by (simp only: integer_text_def int_digits_digit_groups)
  qed
qed

lemma dropWhile_keeps: "x \<in> set xs \<Longrightarrow> \<not> P x \<Longrightarrow> x \<in> set (dropWhile P xs)"
  by (induction xs) auto

lemma int_strip_keeps: "c \<in> set s \<Longrightarrow> \<not> int_space c \<Longrightarrow> c \<in> set (int_strip s)"
proof -
  assume c: "c \<in> set s" "\<not> int_space c"
  then have "c \<in> set (rev (dropWhile int_space s))" by (simp add: dropWhile_keeps)
  then have "c \<in> set (dropWhile int_space (rev (dropWhile int_space s)))"
    using c(2) by (rule dropWhile_keeps)
  then show ?thesis by (simp add: int_strip_def)
qed

lemma empty_not_integer_text: "\<not> integer_text []"
  by (simp add: integer_text_def int_strip_def unsigned_text_def digit_groups_def)

lemma foreign_char_not_integer_text:
  assumes "c \<in> set s" and "\<not> decimal_digit c" and "c \<noteq> CHR ''_''" and "c \<noteq> CHR ''+''"
    and "c \<noteq> CHR ''-''" and "\<not> int_space c"
  shows "\<not> integer_text s"
proof -
  from assms(1,6) have core: "c \<in> set (int_strip s)" by (rule int_strip_keeps)
  have "c \<in> set (unsigned_text (int_strip s))"
  proof (cases "int_strip s")
    case Nil
    with core show ?thesis by simp
  next
    case (Cons x xs)
    with core assms(4,5) show ?thesis by (auto simp: unsigned_text_def)
  qed
  with assms(2,3) have "\<not> list_all (\<lambda>c. decimal_digit c \<or> c = CHR ''_'')
      (unsigned_text (int_strip s))"
    by (auto simp: list_all_iff)
  then show ?thesis by (simp add: integer_text_def digit_groups_def)
qed

text \<open>
  Claim C9, amended.  The parser raises \<open>ValueError\<close>, and so returns no result at all,
  exactly when some sub-label has a \<open>[\<close> and the text between its first \<open>[\<close> and its last
  character is not an integer text; it never raises anything else.  An integer text is
  optional whitespace, an optional sign and decimal digits, with single underscores
  allowed between digits, so an empty text is rejected, and so is a text with any other
  character.  The last character of the sub-label is dropped without being looked at.
\<close>

theorem malformed_bracket_raises:
  "(process_compound_label label = Inl ValueError \<longleftrightarrow>
      (\<exists>sub\<in>set (split_on (CHR ''|'') label).
         CHR ''['' \<in> set sub \<and> \<not> integer_text (bracket_text sub)))
   \<and> process_compound_label label \<noteq> Inl IndexError
   \<and> \<not> integer_text []
   \<and> (c \<in> set s \<and> \<not> decimal_digit c \<and> c \<noteq> CHR ''_'' \<and> c \<noteq> CHR ''+'' \<and> c \<noteq> CHR ''-''
        \<and> \<not> int_space c \<longrightarrow> \<not> integer_text s)"
proof -
  have "process_compound_label label = Inl ValueError \<longleftrightarrow>
      (\<exists>sub\<in>set (split_on (CHR ''|'') label).
         CHR ''['' \<in> set sub \<and> \<not> integer_text (bracket_text sub))"
    using process_sublabels_error[of "split_on (CHR ''|'') label" "[]" "[]" ValueError]
    by (simp add: process_compound_label_def py_int_rejects)
  moreover have "process_compound_label label \<noteq> Inl IndexError"
    using process_sublabels_error[of "split_on (CHR ''|'') label" "[]" "[]" IndexError]
    by (simp add: process_compound_label_def)
  ultimately show ?thesis
    using empty_not_integer_text foreign_char_not_integer_text[of c s] by blast
qed

theorem malformed_bracket_raises_witness:
  "process_compound_label ''A[3]|B[3'' = Inl ValueError
   \<and> process_compound_label ''A[]'' = Inl ValueError
   \<and> process_compound_label ''A[x]|B'' = Inl ValueError
   \<and> \<not> integer_text ''7x''"
proof -
  have texts: "\<not> integer_text (bracket_text ''B[3'')" "\<not> integer_text (bracket_text ''A[]'')"
    "\<not> integer_text (bracket_text ''A[x]'')"
    by (simp_all add: bracket_text_def integer_text_def int_strip_def int_space_def
          unsigned_text_def digit_groups_def decimal_digit_def)
  have foreign: "CHR ''x'' \<in> set ''7x'' \<and> \<not> decimal_digit (CHR ''x'') \<and> CHR ''x'' \<noteq> CHR ''_''
      \<and> CHR ''x'' \<noteq> CHR ''+'' \<and> CHR ''x'' \<noteq> CHR ''-'' \<and> \<not> int_space (CHR ''x'')"
    by (simp add: decimal_digit_def int_space_def)
  show ?thesis
    using malformed_bracket_raises[of "''A[3]|B[3''" "CHR ''x''" "''7x''"]
      malformed_bracket_raises[of "''A[]''" "CHR ''x''" "''7x''"]
      malformed_bracket_raises[of "''A[x]|B''" "CHR ''x''" "''7x''"] texts foreign
    by simp
qed

text \<open>
  The claim as stated fails: a sub-label need not be of the form \<open>Category[N]\<close> for the
  parser to return.  \<open>A[35\<close> has no closing bracket and yields the id 3, and the texts
  \<open> 7 \<close> and \<open>1_0\<close> between the brackets are converted to 7 and 10.
\<close>

theorem unchecked_bracket_counterexample:
  "process_compound_label ''A[35'' = Inr ([''A''], [3])
   \<and> process_compound_label ''A[ 7 ]'' = Inr ([''A''], [7])
   \<and> process_compound_label ''A[1_0]'' = Inr ([''A''], [10])"
  by (simp add: process_compound_label_def process_sublabel_def py_int_def int_strip_def
        int_space_def digit_of_def)

section \<open>Sentence-level renumbering: proofs\<close>

lemma relabel_concat:
  "relabel off rs acc =
     acc @ concat (map (\<lambda>(category, i). category @ '':'' @ str_int (local_id off i) @ ''|'') rs)"
  by (induction off rs acc rule: relabel.induct) (simp_all add: local_id_def)

lemma butlast_concat_join:
  "butlast (concat (map (\<lambda>x. g x @ [sep]) xs)) = join_with sep (map g xs)"
proof (induction xs rule: induct_list012)
  case (3 x y zs)
  have "concat (map (\<lambda>x. g x @ [sep]) (y # zs)) \<noteq> []" by simp
  then have "butlast (concat (map (\<lambda>x. g x @ [sep]) (x # y # zs))) =
      g x @ sep # butlast (concat (map (\<lambda>x. g x @ [sep]) (y # zs)))"
    by (simp add: butlast_append)
  with 3 show ?case by simp
qed simp_all

lemma butlast_relabel:
  "butlast (relabel off rs []) =
     join_with (CHR ''|'') (map (\<lambda>(category, i). category @ '':'' @ str_int (local_id off i)) rs)"
proof -
  have "(\<lambda>(category, i). category @ '':'' @ str_int (local_id off i) @ ''|'') =
        (\<lambda>x. (case x of (category, i) \<Rightarrow> category @ '':'' @ str_int (local_id off i)) @ [CHR ''|''])"
    by (auto simp: fun_eq_iff)
  then show ?thesis
    by (simp add: relabel_concat butlast_concat_join)
qed

lemma process_sublabels_length:
  "process_sublabels subs cats ids = Inr (cats', ids') \<Longrightarrow>
   length cats' = length cats + length subs \<and> length ids' = length ids + length subs"
proof (induction subs arbitrary: cats ids)
  case (Cons sub subs)
  then show ?case by (auto split: sum.splits prod.splits)
qed simp

lemma process_compound_label_length:
  assumes "process_compound_label label = Inr (cats, ids)"
  shows "length cats = length ids" "ids \<noteq> []"
proof -
  have "length cats = length (split_on (CHR ''|'') label) \<and> length ids = length (split_on (CHR ''|'') label)"
    using process_sublabels_length[of "split_on (CHR ''|'') label" "[]" "[]" cats ids] assms
    by (simp add: process_compound_label_def)
  moreover have "split_on (CHR ''|'') label \<noteq> []" by simp
  ultimately show "length cats = length ids" "ids \<noteq> []" by auto
qed

lemma process_row_unlabelled:
  "row_parses_to row (s, t, None) \<Longrightarrow>
   process_row row off = Inr (off, simplified_row f (s, t, None))"
  by (auto simp: process_row_def split: sum.splits)

lemma process_row_labelled:
  assumes "row_parses_to row (s, t, Some rs)"
  shows "rs \<noteq> []"
    and "process_row row off =
           Inr (if off = - 1000000 then snd (hd rs) - 1 else off,
                simplified_row (local_id (if off = - 1000000 then snd (hd rs) - 1 else off))
                  (s, t, Some rs))"
proof -
  from assms obtain label where cells: "row_cells row = Inr (s, t, label)"
    and label: "label \<noteq> ''_''"
    and parse: "process_compound_label label = Inr (map fst rs, map snd rs)"
    by (auto split: sum.splits)
  from process_compound_label_length(2)[OF parse] show rs: "rs \<noteq> []" by simp
  then have first: "getitem (map snd rs) 0 = Inr (snd (hd rs))"
    by (cases rs) (simp_all add: getitem_def)
  show "process_row row off =
           Inr (if off = - 1000000 then snd (hd rs) - 1 else off,
                simplified_row (local_id (if off = - 1000000 then snd (hd rs) - 1 else off))
                  (s, t, Some rs))"
    using cells label parse first
    by (simp add: process_row_def zip_map_fst_snd butlast_relabel)
qed

lemma process_rows_offset_set:
  "list_all2 row_parses_to rows ps \<Longrightarrow> off \<noteq> - 1000000 \<Longrightarrow>
   process_rows rows off out = Inr (out @ map (simplified_row (local_id off)) ps)"
proof (induction rows ps arbitrary: out rule: list_all2_induct)
  case Nil
  then show ?case by simp
next
  case (Cons row rows p ps)
  obtain s t refs where p: "p = (s, t, refs)" by (cases p)
  show ?case
  proof (cases refs)
    case None
    with Cons p show ?thesis by (simp add: process_row_unlabelled[where f = "local_id off"])
  next
    case (Some rs)
    with Cons p show ?thesis by (simp add: process_row_labelled(2))
  qed
qed

lemma process_rows_offset_unset:
  "list_all2 row_parses_to rows ps \<Longrightarrow> first_annotation_id ps \<noteq> Some (- 999999) \<Longrightarrow>
   process_rows rows (- 1000000) out =
     Inr (out @ map (simplified_row (local_id (sentence_offset ps))) ps)"
proof (induction rows ps arbitrary: out rule: list_all2_induct)
  case Nil
  then show ?case by simp
next
  case (Cons row rows p ps)
  obtain s t refs where p: "p = (s, t, refs)" by (cases p)
  show ?case
  proof (cases refs)
    case None
    with Cons p show ?thesis
      by (simp add: process_row_unlabelled[where f = "local_id (sentence_offset ps)"]
            sentence_offset_def)
  next
    case (Some rs)
    with Cons.hyps p have rs: "rs \<noteq> []" and
      row: "process_row row (- 1000000) =
              Inr (snd (hd rs) - 1, simplified_row (local_id (snd (hd rs) - 1)) (s, t, Some rs))"
      using process_row_labelled(1)[of row s t rs] process_row_labelled(2)[of row s t rs "- 1000000"]
      by simp_all
    from rs Some p have first: "first_annotation_id (p # ps) = Some (snd (hd rs))"
      by (cases rs) simp_all
    with Cons.prems have "snd (hd rs) - 1 \<noteq> - 1000000" by auto
    with Cons.hyps have "process_rows rows (snd (hd rs) - 1) out' =
        Inr (out' @ map (simplified_row (local_id (snd (hd rs) - 1))) ps)" for out'
      by (intro process_rows_offset_set)
    with row first p Some show ?thesis by (simp add: sentence_offset_def)
  qed
qed

lemma first_annotation_id_in_format:
  "list_all ids_in_format ps \<Longrightarrow> first_annotation_id ps = Some i \<Longrightarrow> - 1 \<le> i"
proof (induction ps rule: first_annotation_id.induct)
  case (3 s t rs ps)
  then show ?case by (cases rs) (auto simp: ids_in_format_def)
qed (auto simp: ids_in_format_def)

text \<open>
  Claim C4.  For the rows of a sentence in the export's format (every id is the
  sentinel \<open>-1\<close> or non-negative), \<^verbatim>\<open>process_sentence\<close> uses one offset for the whole
  sentence, the first annotation id of the first label that is not \<open>_\<close> minus one:
  every id other than the sentinel is written with that offset subtracted, in every
  label, and the sentinel is written unchanged.  So when that first id is 5, every id 5
  of the sentence is written as 1.
\<close>

theorem process_sentence_single_offset:
  assumes "list_all2 row_parses_to rows ps" and "list_all ids_in_format ps"
  shows "process_sentence rows = Inr (map (simplified_row (local_id (sentence_offset ps))) ps)
         \<and> local_id (sentence_offset ps) (- 1) = - 1
         \<and> (first_annotation_id ps = Some 5 \<longrightarrow> local_id (sentence_offset ps) 5 = 1)"
proof -
  have "first_annotation_id ps \<noteq> Some (- 999999)"
    using first_annotation_id_in_format[OF assms(2)] by fastforce
  then show ?thesis
    using process_rows_offset_unset[OF assms(1), of "[]"]
    by (simp add: process_sentence_def local_id_def sentence_offset_def)
qed


theorem process_sentence_single_offset_witness:
  "list_all2 row_parses_to
     [join_with (CHR 0x09) [''3-1'', ''0-3'', ''the'', ''_'', ''_''],
      join_with (CHR 0x09) [''3-2'', ''4-8'', ''word'', ''_'', ''Quote[5]|Cue''],
      join_with (CHR 0x09) [''3-3'', ''9-10'', ''x'', ''_'', ''Other[7]|Quote[5]'']]
     [(''3'', ''the'', None),
      (''3'', ''word'', Some [(''Quote'', 5), (''Cue'', - 1)]),
      (''3'', ''x'', Some [(''Other'', 7), (''Quote'', 5)])]
   \<and> process_sentence
     [join_with (CHR 0x09) [''3-1'', ''0-3'', ''the'', ''_'', ''_''],
      join_with (CHR 0x09) [''3-2'', ''4-8'', ''word'', ''_'', ''Quote[5]|Cue''],
      join_with (CHR 0x09) [''3-3'', ''9-10'', ''x'', ''_'', ''Other[7]|Quote[5]'']]
     = Inr [join_with (CHR 0x09) [''3'', ''the'', ''_''],
            join_with (CHR 0x09) [''3'', ''word'', ''Quote:1|Cue:-1''],
            join_with (CHR 0x09) [''3'', ''x'', ''Other:3|Quote:1'']]"
proof -
  let ?rows = "[join_with (CHR 0x09) [''3-1'', ''0-3'', ''the'', ''_'', ''_''],
      join_with (CHR 0x09) [''3-2'', ''4-8'', ''word'', ''_'', ''Quote[5]|Cue''],
      join_with (CHR 0x09) [''3-3'', ''9-10'', ''x'', ''_'', ''Other[7]|Quote[5]'']]"
  let ?ps = "[(''3'', ''the'', None),
      (''3'', ''word'', Some [(''Quote'', 5), (''Cue'', - 1)]),
      (''3'', ''x'', Some [(''Other'', 7), (''Quote'', 5 :: int)])]"
  have parses: "list_all2 row_parses_to ?rows ?ps"
    by (simp add: row_cells_def getitem_def process_compound_label_def process_sublabel_def
          py_int_def int_strip_def int_space_def digit_of_def)
  have format: "list_all ids_in_format ?ps"
    by (simp add: ids_in_format_def)
  have "str_int 1 = ''1''" "str_int 3 = ''3''" "str_int (- 1) = ''-1''"
    by (simp_all add: str_int_def str_nat.simps digit_char_def)
  then show ?thesis
    using parses process_sentence_single_offset[OF parses format]
    by (simp add: sentence_offset_def local_id_def)
qed

lemma process_sublabels_extends:
  "process_sublabels subs cats ids = Inr (cats', ids') \<Longrightarrow>
   take (length cats) cats' = cats \<and> take (length ids) ids' = ids"
proof (induction subs arbitrary: cats ids)
  case (Cons sub subs)
  from Cons.prems obtain c i where sub: "process_sublabel sub = Inr (c, i)"
    and rest: "process_sublabels subs (cats @ [c]) (ids @ [i]) = Inr (cats', ids')"
    by (auto split: sum.splits)
  from Cons.IH[OF rest] have "take (length (cats @ [c])) cats' = cats @ [c]"
    "take (length (ids @ [i])) ids' = ids @ [i]" by simp_all
  then have "take (length cats) (take (length (cats @ [c])) cats') = cats"
    "take (length ids) (take (length (ids @ [i])) ids') = ids" by simp_all
  then show ?case by (simp add: min_def)
qed simp

lemma bare_first_sublabel_id:
  assumes "process_compound_label label = Inr (cats, ids)"
    and "CHR ''['' \<notin> set (hd (split_on (CHR ''|'') label))"
  shows "hd ids = - 1"
proof -
  obtain sub subs where split: "split_on (CHR ''|'') label = sub # subs"
    by (cases "split_on (CHR ''|'') label") auto
  with assms(2) have "process_sublabel sub = Inr (sub, - 1)"
    by (simp add: process_sublabel_def)
  with assms(1) split have "process_sublabels subs [sub] [- 1] = Inr (cats, ids)"
    by (simp add: process_compound_label_def)
  from process_sublabels_extends[OF this] have "take 1 ids = [- 1]" by simp
  then show ?thesis by (cases ids) simp_all
qed

lemma first_label_first_id:
  "list_all2 row_parses_to rows ps \<Longrightarrow> first_label rows = Some label \<Longrightarrow>
   \<exists>cats ids. process_compound_label label = Inr (cats, ids) \<and>
      first_annotation_id ps = Some (hd ids)"
proof (induction rows ps rule: list_all2_induct)
  case Nil
  then show ?case by simp
next
  case (Cons row rows p ps)
  obtain s t refs where p: "p = (s, t, refs)" by (cases p)
  show ?case
  proof (cases refs)
    case None
    with Cons p show ?thesis by (auto split: sum.splits)
  next
    case (Some rs)
    with Cons.hyps p have rs: "rs \<noteq> []"
      using process_row_labelled(1)[of row s t rs] by simp
    from Cons.hyps(1) Cons.prems p Some
    have "process_compound_label label = Inr (map fst rs, map snd rs)"
      by (auto split: sum.splits if_splits)
    moreover from rs p Some have "first_annotation_id (p # ps) = Some (hd (map snd rs))"
      by (cases rs) simp_all
    ultimately show ?thesis by blast
  qed
qed

text \<open>
  Claim C10.  When the first label that is not \<open>_\<close> begins with a bare sub-label (one
  without \<open>[\<close>), the offset is taken from that sub-label's sentinel id: it is \<open>-2\<close>, and
  every id \<open>N\<close> other than the sentinel is written as \<open>N + 2\<close> throughout the sentence,
  while the sentinel is still written as \<open>-1\<close>.  (A bracketed id of the export is
  non-negative, hence never the sentinel.)
\<close>

theorem bare_first_sublabel_offset:
  assumes "list_all2 row_parses_to rows ps"
    and "first_label rows = Some label"
    and "CHR ''['' \<notin> set (hd (split_on (CHR ''|'') label))"
  shows "sentence_offset ps = - 2
         \<and> process_sentence rows =
             Inr (map (simplified_row (\<lambda>i. if i = - 1 then - 1 else i + 2)) ps)"
proof -
  from first_label_first_id[OF assms(1,2)] bare_first_sublabel_id[OF _ assms(3)]
  have first: "first_annotation_id ps = Some (- 1)" by auto
  then have offset: "sentence_offset ps = - 2" by (simp add: sentence_offset_def)
  have "local_id (- 2) = (\<lambda>i. if i = - 1 then - 1 else i + 2)"
    by (auto simp: local_id_def fun_eq_iff)
  with offset first show ?thesis
    using process_rows_offset_unset[OF assms(1), of "[]"]
    by (simp add: process_sentence_def)
qed

theorem bare_first_sublabel_offset_witness:
  "first_label
     [join_with (CHR 0x09) [''3-1'', ''0-3'', ''the'', ''_'', ''_''],
      join_with (CHR 0x09) [''3-2'', ''4-8'', ''word'', ''_'', ''Cue|Quote[5]''],
      join_with (CHR 0x09) [''3-3'', ''9-10'', ''x'', ''_'', ''Quote[5]|Other[0]'']]
     = Some ''Cue|Quote[5]''
   \<and> process_sentence
     [join_with (CHR 0x09) [''3-1'', ''0-3'', ''the'', ''_'', ''_''],
      join_with (CHR 0x09) [''3-2'', ''4-8'', ''word'', ''_'', ''Cue|Quote[5]''],
      join_with (CHR 0x09) [''3-3'', ''9-10'', ''x'', ''_'', ''Quote[5]|Other[0]'']]
     = Inr [join_with (CHR 0x09) [''3'', ''the'', ''_''],
            join_with (CHR 0x09) [''3'', ''word'', ''Cue:-1|Quote:7''],
            join_with (CHR 0x09) [''3'', ''x'', ''Quote:7|Other:2'']]"
proof -
  let ?rows = "[join_with (CHR 0x09) [''3-1'', ''0-3'', ''the'', ''_'', ''_''],
      join_with (CHR 0x09) [''3-2'', ''4-8'', ''word'', ''_'', ''Cue|Quote[5]''],
      join_with (CHR 0x09) [''3-3'', ''9-10'', ''x'', ''_'', ''Quote[5]|Other[0]'']]"
  let ?ps = "[(''3'', ''the'', None),
      (''3'', ''word'', Some [(''Cue'', - 1), (''Quote'', 5)]),
      (''3'', ''x'', Some [(''Quote'', 5), (''Other'', 0 :: int)])]"
  have parses: "list_all2 row_parses_to ?rows ?ps"
    by (simp add: row_cells_def getitem_def process_compound_label_def process_sublabel_def
          py_int_def int_strip_def int_space_def digit_of_def)
  have label: "first_label ?rows = Some ''Cue|Quote[5]''"
    by (simp add: row_cells_def getitem_def)
  have bare: "CHR ''['' \<notin> set (hd (split_on (CHR ''|'') ''Cue|Quote[5]''))"
    by simp
  have "str_int 7 = ''7''" "str_int 2 = ''2''" "str_int (- 1) = ''-1''"
    by (simp_all add: str_int_def str_nat.simps digit_char_def)
  then show ?thesis
    using label bare_first_sublabel_offset[OF parses label bare]
    by simp
qed

section \<open>Truncation at a placeholder marker\<close>






section \<open>Spans end no earlier than they start\<close>

lemma indexed_upto_set_stop:
  "indexed_upto i indexed \<Longrightarrow>
   indexed_upto i (map (\<lambda>(key, (c, start, stop)).
                          if key = annotation then (key, (c, start, i))
                          else (key, (c, start, stop))) indexed)"
  by (induction indexed) (auto simp: indexed_upto_def split: if_splits)

lemma index_annotation_upto:
  "index_annotation i annotation indexed = Inr indexed' \<Longrightarrow> indexed_upto i indexed \<Longrightarrow>
   indexed_upto i indexed'"
  by (auto simp: index_annotation_def indexed_upto_set_stop
           split: list.splits option.splits if_splits)
     (simp add: indexed_upto_def)

lemma index_annotations_upto:
  "index_annotations i token_annotations indexed = Inr indexed' \<Longrightarrow> indexed_upto i indexed \<Longrightarrow>
   indexed_upto i indexed'"
proof (induction token_annotations arbitrary: indexed)
  case (Cons annotation rest)
  then show ?case by (auto split: sum.splits dest: index_annotation_upto)
qed simp

lemma indexed_upto_Suc: "indexed_upto i indexed \<Longrightarrow> indexed_upto (Suc i) indexed"
  by (auto simp: indexed_upto_def list_all_iff)

lemma scan_token_ordered:
  assumes "scan_token col i token st = Inr f"
    and "spans_ordered (annotations st)" and "indexed_upto i (indexed_annotations st)"
  shows "spans_ordered (annotations (case f of Next st' \<Rightarrow> st' | Break st' \<Rightarrow> st'))
         \<and> indexed_upto i (indexed_annotations (case f of Next st' \<Rightarrow> st' | Break st' \<Rightarrow> st'))"
  using assms
  by (auto simp: scan_token_def spans_ordered_def split: sum.splits if_splits
           dest: index_annotations_upto)

lemma scan_tokens_ordered:
  "scan_tokens col i sentence st = Inr st' \<Longrightarrow>
   spans_ordered (annotations st) \<Longrightarrow> indexed_upto i (indexed_annotations st) \<Longrightarrow>
   spans_ordered (annotations st') \<and> (\<exists>j. indexed_upto j (indexed_annotations st'))"
proof (induction sentence arbitrary: i st)
  case Nil
  then show ?case by auto
next
  case (Cons token sentence)
  from Cons.prems(1) obtain f where f: "scan_token col i token st = Inr f"
    by (auto split: sum.splits)
  note ok = scan_token_ordered[OF f Cons.prems(2,3)]
  show ?case
  proof (cases f)
    case (Next st1)
    with f Cons.prems(1) have "scan_tokens col (Suc i) sentence st1 = Inr st'" by simp
    moreover from ok Next have "spans_ordered (annotations st1)"
      "indexed_upto (Suc i) (indexed_annotations st1)" by (simp_all add: indexed_upto_Suc)
    ultimately show ?thesis by (rule Cons.IH)
  next
    case (Break st1)
    with f Cons.prems(1) have "st' = st1" by simp
    with ok Break show ?thesis by auto
  qed
qed

lemma obj_indexed_upto_set_end:
  "obj_indexed_upto b indexed \<Longrightarrow>
   obj_indexed_upto b (map (\<lambda>(key, annotation).
                      if key = k then (key, annotation\<lparr>a_end := b\<rparr>)
                      else (key, annotation)) indexed)"
  by (induction indexed) (auto simp: obj_indexed_upto_def split: if_splits)

lemma scan_token_annotation_ordered:
  assumes "list_all (\<lambda>an. a_start an \<le> a_end an) (o_annotations st)"
    and "obj_indexed_upto b (o_indexed st)"
  shows "list_all (\<lambda>an. a_start an \<le> a_end an)
           (o_annotations (scan_token_annotation annotator b token_annotation st))
         \<and> obj_indexed_upto b (o_indexed (scan_token_annotation annotator b token_annotation st))"
  using assms
  by (auto simp: scan_token_annotation_def obj_indexed_upto_set_end)
     (simp add: obj_indexed_upto_def)

lemma scan_token_annotations_ordered:
  "list_all (\<lambda>an. a_start an \<le> a_end an) (o_annotations st) \<Longrightarrow>
   obj_indexed_upto b (o_indexed st) \<Longrightarrow>
   list_all (\<lambda>an. a_start an \<le> a_end an)
           (o_annotations (scan_token_annotations annotator b tas st))
   \<and> obj_indexed_upto b (o_indexed (scan_token_annotations annotator b tas st))"
proof (induction tas arbitrary: st)
  case (Cons ta tas)
  from scan_token_annotation_ordered[OF Cons.prems, of annotator ta]
  show ?case by (auto intro: Cons.IH[THEN conjunct1] Cons.IH[THEN conjunct2])
qed simp

lemma obj_indexed_upto_mono: "obj_indexed_upto b indexed \<Longrightarrow> b \<le> b' \<Longrightarrow> obj_indexed_upto b' indexed"
  by (auto simp: obj_indexed_upto_def list_all_iff)

lemma scan_sentence_ordered:
  "sorted (map t_id tokens) \<Longrightarrow> \<forall>t\<in>set tokens. b \<le> t_id t \<Longrightarrow>
   list_all (\<lambda>an. a_start an \<le> a_end an) (o_annotations st) \<Longrightarrow>
   obj_indexed_upto b (o_indexed st) \<Longrightarrow>
   list_all (\<lambda>an. a_start an \<le> a_end an) (o_annotations (scan_sentence annotator tokens st))
   \<and> (\<exists>b'. obj_indexed_upto b' (o_indexed (scan_sentence annotator tokens st)))"
proof (induction tokens arbitrary: b st)
  case Nil
  then show ?case by auto
next
  case (Cons token tokens)
  let ?st = "scan_token_annotations annotator (t_id token) (t_annotations token) st"
  from Cons.prems have "obj_indexed_upto (t_id token) (o_indexed st)"
    by (auto intro: obj_indexed_upto_mono)
  with Cons.prems(3) have ok: "list_all (\<lambda>an. a_start an \<le> a_end an) (o_annotations ?st)"
    "obj_indexed_upto (t_id token) (o_indexed ?st)"
    using scan_token_annotations_ordered[of st "t_id token" annotator "t_annotations token"]
    by simp_all
  from Cons.prems(1) have "sorted (map t_id tokens)" "\<forall>t\<in>set tokens. t_id token \<le> t_id t"
    by simp_all
  from Cons.IH[OF this ok] show ?case by simp
qed

text \<open>
  Claim C8.  Every span the aggregation returns ends no earlier than it starts: for
  the aggregator over simplified rows whenever it returns, and for
  \<^verbatim>\<open>Sentence.get_annotations\<close> when the tokens carry the ids \<open>0..N-1\<close> in list order.
\<close>

theorem spans_end_after_start:
  "(get_annotations sentence annotation_column = Inr spans \<longrightarrow>
      (\<forall>(category, start, stop)\<in>set spans. start \<le> stop))
   \<and> (map t_id (s_tokens self) = map int [0..<length (s_tokens self)] \<longrightarrow>
      (\<forall>annotation\<in>set (Sentence_get_annotations self annotator).
         a_start annotation \<le> a_end annotation))"
proof (intro conjI impI)
  assume "get_annotations sentence annotation_column = Inr spans"
  then obtain st where st: "scan_tokens annotation_column 0 sentence
      \<lparr>annotations = [], indexed_annotations = [], printed = []\<rparr> = Inr st"
    and spans: "spans = annotations st @ map snd (indexed_annotations st)"
    by (auto simp: get_annotations_def split: sum.splits)
  from scan_tokens_ordered[OF st] obtain j where
    "spans_ordered (annotations st)" "indexed_upto j (indexed_annotations st)"
    by (auto simp: spans_ordered_def indexed_upto_def)
  with spans show "\<forall>(category, start, stop)\<in>set spans. start \<le> stop"
    by (fastforce simp: spans_ordered_def indexed_upto_def list_all_iff)
next
  assume ids: "map t_id (s_tokens self) = map int [0..<length (s_tokens self)]"
  have "sorted (map int [0..<length (s_tokens self)])"
    by (simp add: sorted_map sorted_wrt_iff_nth_less)
  with ids have sorted: "sorted (map t_id (s_tokens self))" by simp
  have "\<forall>x\<in>set (map int [0..<length (s_tokens self)]). 0 \<le> x" by auto
  with ids have low: "\<forall>t\<in>set (s_tokens self). 0 \<le> t_id t"
    by (metis (no_types, lifting) image_eqI list.set_map)
  from scan_sentence_ordered[OF sorted low, of "\<lparr>o_annotations = [], o_indexed = []\<rparr>" annotator]
  obtain b' where "list_all (\<lambda>an. a_start an \<le> a_end an)
       (o_annotations (scan_sentence annotator (s_tokens self) \<lparr>o_annotations = [], o_indexed = []\<rparr>))"
    "obj_indexed_upto b'
       (o_indexed (scan_sentence annotator (s_tokens self) \<lparr>o_annotations = [], o_indexed = []\<rparr>))"
    by (auto simp: obj_indexed_upto_def)
  then show "\<forall>annotation\<in>set (Sentence_get_annotations self annotator).
         a_start annotation \<le> a_end annotation"
    by (fastforce simp: Sentence_get_annotations_def Let_def obj_indexed_upto_def list_all_iff)
qed

lemma example_rows_spans:
  "get_annotations example_rows 2 = Inr [(''Cue'', 0, 0), (''Cue'', 3, 3), (''Quote'', 1, 2)]"
  by (simp add: example_rows_def get_annotations_def scan_token_def getitem_def
        index_annotation_def py_int_def int_strip_def int_space_def digit_of_def)

lemma example_sentence_spans:
  "Sentence_get_annotations example_sentence ''alice'' =
     [\<lparr>a_category = ''Cue'', a_start = 0, a_end = 0, a_annotator = ''''\<rparr>,
      \<lparr>a_category = ''Cue'', a_start = 3, a_end = 3, a_annotator = ''''\<rparr>,
      \<lparr>a_category = ''Quote'', a_start = 1, a_end = 2, a_annotator = ''''\<rparr>]"
  by (simp add: example_sentence_def Sentence_get_annotations_def scan_token_annotation_def)

theorem spans_end_after_start_witness:
  "get_annotations example_rows 2 = Inr [(''Cue'', 0, 0), (''Cue'', 3, 3), (''Quote'', 1, 2)]
   \<and> list_all (\<lambda>(category, start, stop). start \<le> stop)
         [(''Cue'', 0 :: nat, 0 :: nat), (''Cue'', 3, 3), (''Quote'', 1, 2)]
   \<and> map t_id (s_tokens example_sentence) = map int [0..<length (s_tokens example_sentence)]
   \<and> list_all (\<lambda>annotation. a_start annotation \<le> a_end annotation)
         (Sentence_get_annotations example_sentence ''alice'')"
proof -
  have ids: "map t_id (s_tokens example_sentence) =
             map int [0..<length (s_tokens example_sentence)]"
    by (simp add: example_sentence_def upt_rec)
  show ?thesis
    using spans_end_after_start
      [of example_rows 2 "[(''Cue'', 0, 0), (''Cue'', 3, 3), (''Quote'', 1, 2)]"
          example_sentence "''alice''"]
      example_rows_spans ids
    by (simp add: list_all_iff)
qed

section \<open>Annotations of other annotators\<close>

lemma scan_token_annotations_filter:
  "scan_token_annotations annotator tid tas st =
     foldl (\<lambda>st ta. scan_token_annotation annotator tid ta st) st
       (filter (\<lambda>ta. ta_annotator ta = annotator) tas)"
proof (induction tas arbitrary: st)
  case (Cons ta tas)
  then show ?case by (simp add: scan_token_annotation_def)
qed simp

lemma scan_sentence_view:
  "scan_sentence annotator tokens st =
     foldl (\<lambda>st (tid, ta). scan_token_annotation annotator tid ta st) st
       (annotator_view annotator tokens)"
proof (induction tokens arbitrary: st)
  case Nil
  then show ?case by (simp add: annotator_view_def)
next
  case (Cons token tokens)
  have "annotator_view annotator (token # tokens) =
          map (\<lambda>ta. (t_id token, ta))
            (filter (\<lambda>ta. ta_annotator ta = annotator) (t_annotations token))
          @ annotator_view annotator tokens"
    by (simp add: annotator_view_def)
  then show ?case
    by (simp add: Cons.IH scan_token_annotations_filter foldl_map)
qed

lemma annotator_view_only:
  "annotator_view annotator (s_tokens (only_annotator annotator self)) =
     annotator_view annotator (s_tokens self)"
  by (simp add: annotator_view_def only_annotator_def comp_def)

text \<open>
  Claim C6.  What \<^verbatim>\<open>Sentence.get_annotations(a)\<close> returns depends only on the
  annotations whose annotator is \<open>a\<close>, with the ids of their tokens, in scan order: two
  sentences that agree on them give the same list, and removing the annotations of
  all other annotators changes nothing, whatever ids those annotations carry.
\<close>

theorem other_annotators_ignored:
  "(annotator_view a (s_tokens s1) = annotator_view a (s_tokens s2) \<longrightarrow>
      Sentence_get_annotations s1 a = Sentence_get_annotations s2 a)
   \<and> Sentence_get_annotations (only_annotator a s1) a = Sentence_get_annotations s1 a"
  by (simp add: Sentence_get_annotations_def scan_sentence_view annotator_view_only)

theorem other_annotators_ignored_witness:
  "annotator_view ''alice'' (s_tokens shared_id_sentence) =
     annotator_view ''alice'' (s_tokens alice_only_sentence)
   \<and> Sentence_get_annotations shared_id_sentence ''alice'' =
       Sentence_get_annotations alice_only_sentence ''alice''
   \<and> Sentence_get_annotations alice_only_sentence ''alice'' =
       [\<lparr>a_category = ''Quote'', a_start = 0, a_end = 1, a_annotator = ''''\<rparr>]"
proof -
  have view: "annotator_view ''alice'' (s_tokens shared_id_sentence) =
     annotator_view ''alice'' (s_tokens alice_only_sentence)"
    by (simp add: annotator_view_def shared_id_sentence_def alice_only_sentence_def)
  have "Sentence_get_annotations alice_only_sentence ''alice'' =
       [\<lparr>a_category = ''Quote'', a_start = 0, a_end = 1, a_annotator = ''''\<rparr>]"
    by (simp add: alice_only_sentence_def Sentence_get_annotations_def scan_token_annotation_def)
  with view show ?thesis
    using other_annotators_ignored[of "''alice''" shared_id_sentence alice_only_sentence]
    by simp
qed

section \<open>The accumulator in first-occurrence order\<close>

lemma set_first_seen [simp]: "set (first_seen ks) = set ks"
  by (induction ks) auto

lemma first_seen_snoc:
  "first_seen (ks @ [k]) = (if k \<in> set ks then first_seen ks else first_seen ks @ [k])"
  by (induction ks) auto

lemma group_span_snoc_other:
  "k' \<noteq> k \<Longrightarrow> group_span (occs @ [(k, c, p)]) k' = group_span occs k'"
  by (simp add: group_span_def)

lemma group_span_snoc_new:
  "k \<notin> set (map fst occs) \<Longrightarrow> group_span (occs @ [(k, c, p)]) k = (c, p, p)"
proof -
  assume "k \<notin> set (map fst occs)"
  then have "filter (\<lambda>occ. fst occ = k) occs = []"
    by (auto simp: filter_empty_conv)
  then show ?thesis by (simp add: group_span_def)
qed

lemma group_span_snoc_old:
  assumes "k \<in> set (map fst occs)"
  shows "group_span (occs @ [(k, c, p)]) k =
           (fst (group_span occs k), fst (snd (group_span occs k)), p)"
proof -
  from assms have "filter (\<lambda>occ. fst occ = k) occs \<noteq> []"
    by (auto simp: filter_empty_conv)
  then show ?thesis by (simp add: group_span_def Let_def)
qed

lemma foldl_upsert_grouped:
  "foldl (\<lambda>acc occ. upsert occ acc) [] occs =
     map (\<lambda>k. (k, group_span occs k)) (first_seen (map fst occs))"
proof (induction occs rule: rev_induct)
  case Nil
  then show ?case by simp
next
  case (snoc occ occs)
  obtain k c p where occ: "occ = (k, c, p)" by (cases occ)
  let ?acc = "map (\<lambda>k. (k, group_span occs k)) (first_seen (map fst occs))"
  have step: "foldl (\<lambda>acc occ. upsert occ acc) [] (occs @ [occ]) = upsert (k, c, p) ?acc"
    using snoc occ by simp
  have keys: "k \<in> set (map fst ?acc) \<longleftrightarrow> k \<in> set (map fst occs)"
    by (simp add: comp_def)
  show ?case
  proof (cases "k \<in> set (map fst occs)")
    case True
    have "map (\<lambda>(k', c', start, stop). if k' = k then (k', c', start, p) else (k', c', start, stop)) ?acc
          = map (\<lambda>k'. (k', group_span (occs @ [(k, c, p)]) k')) (first_seen (map fst occs))"
      using True
      by (auto simp: group_span_snoc_other group_span_snoc_old split: prod.splits)
    moreover have "upsert (k, c, p) ?acc =
        map (\<lambda>(k', c', start, stop). if k' = k then (k', c', start, p) else (k', c', start, stop)) ?acc"
      using True keys unfolding upsert_def by simp
    moreover have "first_seen (map fst (occs @ [occ])) = first_seen (map fst occs)"
      using True occ by (simp add: first_seen_snoc)
    ultimately show ?thesis using step occ by simp
  next
    case False
    have "map (\<lambda>k'. (k', group_span (occs @ [(k, c, p)]) k')) (first_seen (map fst occs)) = ?acc"
    proof -
      have "group_span (occs @ [(k, c, p)]) k' = group_span occs k'"
        if "k' \<in> set (map fst occs)" for k'
        using that False by (intro group_span_snoc_other) auto
      then show ?thesis by simp
    qed
    moreover have "upsert (k, c, p) ?acc = ?acc @ [(k, c, p, p)]"
      using False keys unfolding upsert_def by simp
    moreover have "first_seen (map fst (occs @ [occ])) = first_seen (map fst occs) @ [k]"
      using False occ by (simp add: first_seen_snoc)
    ultimately show ?thesis using step occ False by (simp add: group_span_snoc_new)
  qed
qed

lemma map_snd_foldl_upsert:
  "map snd (foldl (\<lambda>acc occ. upsert occ acc) [] occs) = grouped_spans occs"
  by (simp add: foldl_upsert_grouped grouped_spans_def comp_def)

section \<open>Two-phase order of the output\<close>

lemma hd_split_on: "hd (split_on sep s) = takeWhile (\<lambda>c. c \<noteq> sep) s"
  by (induction s) (auto split: list.splits)

lemma str_index_take:
  "str_index s c = Inr k \<Longrightarrow> take k s = takeWhile (\<lambda>x. x \<noteq> c) s"
  by (induction s arbitrary: k) (auto split: if_splits sum.splits)

lemma index_annotation_upsert:
  assumes "index_annotation i annotation indexed = Inr indexed'"
  shows "indexed' = upsert (annotation, takeWhile (\<lambda>c. c \<noteq> CHR '':'') annotation, i) indexed"
proof -
  from assms obtain category index where split: "split_on (CHR '':'') annotation = [category, index]"
    by (auto simp: index_annotation_def split: list.splits)
  with hd_split_on[of "CHR '':''" annotation]
  have "category = takeWhile (\<lambda>c. c \<noteq> CHR '':'') annotation" by simp
  with assms split show ?thesis
    by (auto simp: index_annotation_def upsert_def split: option.splits if_splits)
qed

lemma index_annotations_upsert:
  "index_annotations i token_annotations indexed = Inr indexed' \<Longrightarrow>
   indexed' = foldl (\<lambda>acc occ. upsert occ acc) indexed
     (map (\<lambda>annotation. (annotation, takeWhile (\<lambda>c. c \<noteq> CHR '':'') annotation, i)) token_annotations)"
proof (induction token_annotations arbitrary: indexed)
  case (Cons annotation rest)
  from Cons.prems obtain mid where mid: "index_annotation i annotation indexed = Inr mid"
    and rest: "index_annotations i rest mid = Inr indexed'"
    by (auto split: sum.splits)
  from index_annotation_upsert[OF mid] Cons.IH[OF rest] show ?case by simp
qed simp

lemma scan_token_next:
  assumes "getitem token col = Inr label" and "CHR ''*'' \<notin> set label"
    and "scan_token col i token st = Inr f"
  shows "\<exists>st'. f = Next st'
           \<and> annotations st' = annotations st @ label_appended i label
           \<and> indexed_annotations st' =
               foldl (\<lambda>acc occ. upsert occ acc) (indexed_annotations st) (label_indexed i label)
           \<and> printed st' = printed st"
proof (cases "label = ''_''")
  case True
  with assms show ?thesis
    by (auto simp: scan_token_def label_appended_def label_indexed_def)
next
  case False
  show ?thesis
  proof (cases "str_contains ''-1'' label")
    case True
    with False assms show ?thesis
      by (auto simp: scan_token_def label_appended_def label_indexed_def str_index_take
               split: sum.splits)
  next
    case no: False
    with False assms obtain indexed where
      ix: "index_annotations i (split_on (CHR ''|'') label) (indexed_annotations st) = Inr indexed"
      and f: "f = Next (st\<lparr>indexed_annotations := indexed\<rparr>)"
      by (auto simp: scan_token_def split: sum.splits)
    from index_annotations_upsert[OF ix] f False no show ?thesis
      by (simp add: label_appended_def label_indexed_def)
  qed
qed

lemma scan_tokens_two_phase:
  "map (\<lambda>token. getitem token col) sentence = map Inr labels \<Longrightarrow>
   \<forall>label\<in>set labels. CHR ''*'' \<notin> set label \<Longrightarrow>
   scan_tokens col i sentence st = Inr st' \<Longrightarrow>
   annotations st' = annotations st @ rows_appended i labels
   \<and> indexed_annotations st' =
       foldl (\<lambda>acc occ. upsert occ acc) (indexed_annotations st) (rows_indexed i labels)"
proof (induction sentence arbitrary: labels i st)
  case Nil
  then show ?case by (simp add: rows_appended_def rows_indexed_def)
next
  case (Cons token sentence)
  from Cons.prems(1) obtain label rest where labels: "labels = label # rest"
    and label: "getitem token col = Inr label"
    and rest: "map (\<lambda>token. getitem token col) sentence = map Inr rest"
    by (cases labels) auto
  from Cons.prems(2) labels have star: "CHR ''*'' \<notin> set label"
    and stars: "\<forall>label\<in>set rest. CHR ''*'' \<notin> set label" by simp_all
  from Cons.prems(3) obtain f where f: "scan_token col i token st = Inr f"
    by (auto split: sum.splits)
  from scan_token_next[OF label star f] obtain st1 where nxt: "f = Next st1"
    and a1: "annotations st1 = annotations st @ label_appended i label"
    and i1: "indexed_annotations st1 =
               foldl (\<lambda>acc occ. upsert occ acc) (indexed_annotations st) (label_indexed i label)"
    by blast
  from Cons.prems(3) f nxt have "scan_tokens col (Suc i) sentence st1 = Inr st'" by simp
  from Cons.IH[OF rest stars this] a1 i1 labels show ?case
    by (simp add: rows_appended_def rows_indexed_def)
qed

lemma get_annotations_two_phase:
  assumes "map (\<lambda>token. getitem token col) sentence = map Inr labels"
    and "\<forall>label\<in>set labels. CHR ''*'' \<notin> set label"
    and "get_annotations sentence col = Inr spans"
  shows "spans = rows_appended 0 labels @ grouped_spans (rows_indexed 0 labels)"
proof -
  from assms(3) obtain st where st: "scan_tokens col 0 sentence
      \<lparr>annotations = [], indexed_annotations = [], printed = []\<rparr> = Inr st"
    and spans: "spans = annotations st @ map snd (indexed_annotations st)"
    by (auto simp: get_annotations_def split: sum.splits)
  from scan_tokens_two_phase[OF assms(1,2) st] spans show ?thesis
    by (simp add: map_snd_foldl_upsert)
qed

lemma annotator_view_annotator:
  "(tid, ta) \<in> set (annotator_view annotator tokens) \<Longrightarrow> ta_annotator ta = annotator"
  by (auto simp: annotator_view_def)

lemma as_annotation_entry:
  "a_annotator (snd e) = '''' \<Longrightarrow> as_annotation (snd (entry_of e)) = snd e"
  by (simp add: as_annotation_def entry_of_def)

lemma scan_token_annotation_sentinel:
  "ta_annotator ta = annotator \<Longrightarrow> ta_id ta = - 1 \<Longrightarrow>
   scan_token_annotation annotator tid ta st =
     st\<lparr>o_annotations := o_annotations st @ [as_annotation (ta_category ta, tid, tid)]\<rparr>"
  by (simp add: scan_token_annotation_def as_annotation_def)

lemma scan_token_annotation_grouped:
  assumes "ta_annotator ta = annotator" and "ta_id ta \<noteq> - 1"
  shows "o_annotations (scan_token_annotation annotator tid ta st) = o_annotations st"
    and "map entry_of (o_indexed (scan_token_annotation annotator tid ta st)) =
           upsert (ta_id ta, ta_category ta, tid) (map entry_of (o_indexed st))"
    and "list_all (\<lambda>e. a_annotator (snd e) = '''') (o_indexed st) \<Longrightarrow>
         list_all (\<lambda>e. a_annotator (snd e) = '''')
           (o_indexed (scan_token_annotation annotator tid ta st))"
proof -
  have keys: "map fst (map entry_of (o_indexed st)) = map fst (o_indexed st)"
    by (simp add: entry_of_def comp_def)
  show "o_annotations (scan_token_annotation annotator tid ta st) = o_annotations st"
    using assms by (simp add: scan_token_annotation_def)
  show "map entry_of (o_indexed (scan_token_annotation annotator tid ta st)) =
           upsert (ta_id ta, ta_category ta, tid) (map entry_of (o_indexed st))"
  proof (cases "ta_id ta \<in> set (map fst (o_indexed st))")
    case True
    then have "upsert (ta_id ta, ta_category ta, tid) (map entry_of (o_indexed st)) =
        map (\<lambda>(k', c', start, stop).
               if k' = ta_id ta then (k', c', start, tid) else (k', c', start, stop))
          (map entry_of (o_indexed st))"
      unfolding upsert_def using keys by simp
    with True assms show ?thesis
      by (auto simp: scan_token_annotation_def entry_of_def)
  next
    case False
    then have "upsert (ta_id ta, ta_category ta, tid) (map entry_of (o_indexed st)) =
        map entry_of (o_indexed st) @ [(ta_id ta, ta_category ta, tid, tid)]"
      unfolding upsert_def using keys by simp
    with False assms show ?thesis
      by (simp add: scan_token_annotation_def entry_of_def)
  qed
  show "list_all (\<lambda>e. a_annotator (snd e) = '''')
           (o_indexed (scan_token_annotation annotator tid ta st))"
    if "list_all (\<lambda>e. a_annotator (snd e) = '''') (o_indexed st)"
    using that assms by (auto simp: scan_token_annotation_def list_all_iff)
qed

lemma fold_view_two_phase:
  "\<forall>(tid, ta)\<in>set view. ta_annotator ta = annotator \<Longrightarrow>
   list_all (\<lambda>e. a_annotator (snd e) = '''') (o_indexed st) \<Longrightarrow>
   o_annotations (foldl (\<lambda>st (tid, ta). scan_token_annotation annotator tid ta st) st view) =
     o_annotations st @
       map as_annotation
         (map (\<lambda>(tid, ta). (ta_category ta, tid, tid)) (filter (\<lambda>(tid, ta). ta_id ta = - 1) view))
   \<and> map entry_of
       (o_indexed (foldl (\<lambda>st (tid, ta). scan_token_annotation annotator tid ta st) st view)) =
     foldl (\<lambda>acc occ. upsert occ acc) (map entry_of (o_indexed st))
       (map (\<lambda>(tid, ta). (ta_id ta, ta_category ta, tid))
          (filter (\<lambda>(tid, ta). ta_id ta \<noteq> - 1) view))
   \<and> list_all (\<lambda>e. a_annotator (snd e) = '''')
       (o_indexed (foldl (\<lambda>st (tid, ta). scan_token_annotation annotator tid ta st) st view))"
proof (induction view arbitrary: st)
  case Nil
  then show ?case by simp
next
  case (Cons x view)
  obtain tid ta where x: "x = (tid, ta)" by (cases x)
  with Cons.prems(1) have ann: "ta_annotator ta = annotator"
    and rest: "\<forall>(tid, ta)\<in>set view. ta_annotator ta = annotator" by auto
  let ?st = "scan_token_annotation annotator tid ta st"
  show ?case
  proof (cases "ta_id ta = - 1")
    case True
    with ann have st: "?st = st\<lparr>o_annotations := o_annotations st @
        [as_annotation (ta_category ta, tid, tid)]\<rparr>"
      by (rule scan_token_annotation_sentinel)
    with Cons.prems(2) have "list_all (\<lambda>e. a_annotator (snd e) = '''') (o_indexed ?st)" by simp
    from Cons.IH[OF rest this] st x True show ?thesis by simp
  next
    case False
    note g = scan_token_annotation_grouped[OF ann False, where tid = tid and st = st]
    from g(3)[OF Cons.prems(2)] have "list_all (\<lambda>e. a_annotator (snd e) = '''') (o_indexed ?st)" .
    from Cons.IH[OF rest this] g(1,2) x False show ?thesis by simp
  qed
qed

lemma Sentence_get_annotations_two_phase:
  "Sentence_get_annotations self annotator =
     map as_annotation
       (sentence_sentinels annotator (s_tokens self)
        @ grouped_spans (sentence_occurrences annotator (s_tokens self)))"
proof -
  let ?view = "annotator_view annotator (s_tokens self)"
  let ?st = "foldl (\<lambda>st (tid, ta). scan_token_annotation annotator tid ta st)
               \<lparr>o_annotations = [], o_indexed = []\<rparr> ?view"
  have view: "\<forall>(tid, ta)\<in>set ?view. ta_annotator ta = annotator"
    by (auto dest: annotator_view_annotator)
  from fold_view_two_phase[OF view, of "\<lparr>o_annotations = [], o_indexed = []\<rparr>"]
  have ann: "o_annotations ?st = map as_annotation (sentence_sentinels annotator (s_tokens self))"
    and idx: "map entry_of (o_indexed ?st) =
        foldl (\<lambda>acc occ. upsert occ acc) [] (sentence_occurrences annotator (s_tokens self))"
    and inv: "list_all (\<lambda>e. a_annotator (snd e) = '''') (o_indexed ?st)"
    by (simp_all add: sentence_sentinels_def sentence_occurrences_def)
  from inv have "map snd (o_indexed ?st) = map (\<lambda>e. as_annotation (snd (entry_of e))) (o_indexed ?st)"
    by (auto simp: list_all_iff as_annotation_entry)
  also have "\<dots> = map as_annotation (map snd (map entry_of (o_indexed ?st)))"
    by (simp add: comp_def)
  also have "\<dots> = map as_annotation (grouped_spans (sentence_occurrences annotator (s_tokens self)))"
    by (simp only: idx map_snd_foldl_upsert)
  finally show ?thesis
    using ann by (simp add: Sentence_get_annotations_def scan_sentence_view Let_def)
qed

section \<open>Sentinel references during the scan\<close>

lemma takeWhile_before_sep:
  "sep \<notin> set x \<Longrightarrow> takeWhile (\<lambda>c. c \<noteq> sep) (x @ sep # r) = x"
  by (induction x) auto

lemma str_contains_middle: "str_contains sub (xs @ sub @ ys)"
proof (induction xs)
  case Nil
  have "prefix sub (sub @ ys)" by simp
  then show ?case by (cases "sub @ ys") auto
qed simp

text \<open>
  In \<^verbatim>\<open>Sentence.get_annotations\<close> every sentinel annotation of the chosen annotator adds
  a span at its token while the token is scanned, and the token's other annotations
  reach the accumulator as if the sentinel ones were not there.
\<close>

lemma scan_token_annotations_sentinels:
  "o_annotations (scan_token_annotations annotator tid tas st) =
     o_annotations st @
       map (\<lambda>ta. as_annotation (ta_category ta, tid, tid))
         (filter (\<lambda>ta. ta_annotator ta = annotator \<and> ta_id ta = - 1) tas)"
proof (induction tas arbitrary: st)
  case (Cons ta tas)
  then show ?case by (simp add: scan_token_annotation_def as_annotation_def)
qed simp

lemma scan_token_annotation_indexed_cong:
  "o_indexed st = o_indexed st' \<Longrightarrow>
   o_indexed (scan_token_annotation annotator tid ta st) =
   o_indexed (scan_token_annotation annotator tid ta st')"
  by (simp add: scan_token_annotation_def)

lemma scan_token_annotations_indexed_cong:
  "o_indexed st = o_indexed st' \<Longrightarrow>
   o_indexed (scan_token_annotations annotator tid tas st) =
   o_indexed (scan_token_annotations annotator tid tas st')"
proof (induction tas arbitrary: st st')
  case (Cons ta tas)
  from Cons.IH[OF scan_token_annotation_indexed_cong[OF Cons.prems]] show ?case by simp
qed simp

lemma scan_token_annotations_grouped_only:
  "o_indexed (scan_token_annotations annotator tid tas st) =
   o_indexed (scan_token_annotations annotator tid (filter (\<lambda>ta. ta_id ta \<noteq> - 1) tas) st)"
proof (induction tas arbitrary: st)
  case (Cons ta tas)
  show ?case
  proof (cases "ta_id ta = - 1")
    case True
    then have "o_indexed (scan_token_annotation annotator tid ta st) = o_indexed st"
      by (simp add: scan_token_annotation_def)
    from scan_token_annotations_indexed_cong[OF this] True Cons.IH show ?thesis by simp
  next
    case False
    with Cons.IH show ?thesis by simp
  qed
qed simp

lemma scan_token_sentinel_label:
  assumes "getitem token col = Inr label" and "CHR ''*'' \<notin> set label" and "label \<noteq> ''_''"
    and "str_contains ''-1'' label" and "CHR '':'' \<in> set label"
  shows "scan_token col i token st =
           Inr (Next (st\<lparr>annotations := annotations st @
                  [(takeWhile (\<lambda>c. c \<noteq> CHR '':'') label, i, i)]\<rparr>))"
proof -
  from assms(5) have "str_index label (CHR '':'') = Inr (length (takeWhile (\<lambda>c. c \<noteq> CHR '':'') label))"
    by (rule str_index_takeWhile)
  moreover have "take (length (takeWhile (\<lambda>c. c \<noteq> CHR '':'') label)) label =
      takeWhile (\<lambda>c. c \<noteq> CHR '':'') label"
    by (rule takeWhile_eq_take[symmetric])
  ultimately show ?thesis using assms(1-4) by (simp add: scan_token_def)
qed

text \<open>
  Claim C1.  The aggregator over simplified rows does not do what the claim says when a
  sentinel reference shares its label with other references.  On the rows
  \<open>Cue:-1|Quote:1\<close>, \<open>Quote:1\<close> the \<open>Quote\<close> on token 0 opens no accumulator entry: its span
  starts at token 1, where \<^verbatim>\<open>Sentence.get_annotations\<close>, on the same references, starts
  it at token 0.  And the renumbering writes such labels itself: from the export rows
  \<open>Quote[5]\<close>, \<open>Quote[5]|Cue\<close> it produces \<open>Quote:1\<close>, \<open>Quote:1|Cue:-1\<close>, on which the
  aggregator emits no \<open>Cue\<close> span at all, emits a one-token \<open>Quote\<close> span for token 1 and
  leaves the \<open>Quote\<close> opened at token 0 unextended.
\<close>

theorem sentinel_beside_other_references:
  "rows_render 2 ''alice'' mixed_rows (s_tokens mixed_sentence)
   \<and> get_annotations mixed_rows 2 = Inr [(''Cue'', 0, 0), (''Quote'', 1, 1)]
   \<and> Sentence_get_annotations mixed_sentence ''alice'' =
       map as_annotation [(''Cue'', 0, 0), (''Quote'', 0, 1)]
   \<and> map_sum id (map (split_on (CHR 0x09))) (process_sentence exported_rows) =
       Inr [[''1'', ''a'', ''Quote:1''], [''1'', ''b'', ''Quote:1|Cue:-1'']]
   \<and> get_annotations [[''1'', ''a'', ''Quote:1''], [''1'', ''b'', ''Quote:1|Cue:-1'']] 2 =
       Inr [(''Quote'', 1, 1), (''Quote'', 0, 0)]"
proof -
  have strs: "str_int 1 = ''1''" "str_int (- 1) = ''-1''"
    by (simp_all add: str_int_def str_nat.simps digit_char_def)
  have "rows_render 2 ''alice'' mixed_rows (s_tokens mixed_sentence)"
    by (simp add: rows_render_def mixed_rows_def mixed_sentence_def getitem_def
          render_label_def render_ref_def token_refs_def strs)
  moreover have "get_annotations mixed_rows 2 = Inr [(''Cue'', 0, 0), (''Quote'', 1, 1)]"
    by (simp add: mixed_rows_def get_annotations_def scan_token_def getitem_def
          index_annotation_def py_int_def int_strip_def int_space_def digit_of_def)
  moreover have "Sentence_get_annotations mixed_sentence ''alice'' =
       map as_annotation [(''Cue'', 0, 0), (''Quote'', 0, 1)]"
    by (simp add: mixed_sentence_def Sentence_get_annotations_def scan_token_annotation_def
          as_annotation_def)
  moreover have "map_sum id (map (split_on (CHR 0x09))) (process_sentence exported_rows) =
       Inr [[''1'', ''a'', ''Quote:1''], [''1'', ''b'', ''Quote:1|Cue:-1'']]"
    by (simp add: exported_rows_def process_sentence_def process_row_def row_cells_def
          getitem_def process_compound_label_def process_sublabel_def py_int_def int_strip_def
          int_space_def digit_of_def strs)
  moreover have "get_annotations [[''1'', ''a'', ''Quote:1''], [''1'', ''b'', ''Quote:1|Cue:-1'']] 2
       = Inr [(''Quote'', 1, 1), (''Quote'', 0, 0)]"
    by (simp add: get_annotations_def scan_token_def getitem_def
          index_annotation_def py_int_def int_strip_def int_space_def digit_of_def)
  ultimately show ?thesis by simp
qed

section \<open>The output in two phases\<close>








text \<open>
  Claim C2.  The output of the aggregator over simplified rows is not the list the claim
  describes when a label holds a sentinel reference and another reference.  On the rows
  \<open>Quote:1|Cue:-1\<close>, \<open>Quote:1\<close> the sentinel spans followed by the accumulator spans are
  \<open>(Cue,0,0), (Quote,0,1)\<close>, which is what \<^verbatim>\<open>Sentence.get_annotations\<close> returns on the same
  references; the aggregator over rows returns \<open>(Quote,0,0), (Quote,1,1)\<close>.  On the one row
  \<open>Cue:-1|Note:-1\<close> they are \<open>(Cue,0,0), (Note,0,0)\<close>; the aggregator over rows returns
  \<open>(Cue,0,0)\<close> alone.  On the stream of the example, where every sentinel reference is
  alone on its token, both return \<open>(Cue,0,0), (Cue,3,3), (Quote,1,2)\<close>.
\<close>

theorem output_misses_sentinel_references:
  "rows_render 2 ''alice'' late_sentinel_rows (s_tokens late_sentinel_sentence)
   \<and> sentence_sentinels ''alice'' (s_tokens late_sentinel_sentence)
       @ grouped_spans (sentence_occurrences ''alice'' (s_tokens late_sentinel_sentence))
       = [(''Cue'', 0, 0), (''Quote'', 0, 1)]
   \<and> Sentence_get_annotations late_sentinel_sentence ''alice'' =
       map as_annotation [(''Cue'', 0, 0), (''Quote'', 0, 1)]
   \<and> get_annotations late_sentinel_rows 2 = Inr [(''Quote'', 0, 0), (''Quote'', 1, 1)]
   \<and> rows_render 2 ''alice'' two_sentinel_rows (s_tokens two_sentinel_sentence)
   \<and> sentence_sentinels ''alice'' (s_tokens two_sentinel_sentence)
       @ grouped_spans (sentence_occurrences ''alice'' (s_tokens two_sentinel_sentence))
       = [(''Cue'', 0, 0), (''Note'', 0, 0)]
   \<and> Sentence_get_annotations two_sentinel_sentence ''alice'' =
       map as_annotation [(''Cue'', 0, 0), (''Note'', 0, 0)]
   \<and> get_annotations two_sentinel_rows 2 = Inr [(''Cue'', 0, 0)]
   \<and> get_annotations example_rows 2 = Inr [(''Cue'', 0, 0), (''Cue'', 3, 3), (''Quote'', 1, 2)]
   \<and> Sentence_get_annotations example_sentence ''alice'' =
       map as_annotation [(''Cue'', 0, 0), (''Cue'', 3, 3), (''Quote'', 1, 2)]"
proof -
  have strs: "str_int 1 = ''1''" "str_int (- 1) = ''-1''"
    by (simp_all add: str_int_def str_nat.simps digit_char_def)
  have "rows_render 2 ''alice'' late_sentinel_rows (s_tokens late_sentinel_sentence)"
    by (simp add: rows_render_def late_sentinel_rows_def late_sentinel_sentence_def getitem_def
          render_label_def render_ref_def token_refs_def strs)
  moreover have "sentence_sentinels ''alice'' (s_tokens late_sentinel_sentence)
       @ grouped_spans (sentence_occurrences ''alice'' (s_tokens late_sentinel_sentence))
       = [(''Cue'', 0, 0), (''Quote'', 0, 1)]"
    by (simp add: sentence_sentinels_def sentence_occurrences_def annotator_view_def
          late_sentinel_sentence_def grouped_spans_def group_span_def)
  moreover have "Sentence_get_annotations late_sentinel_sentence ''alice'' =
       map as_annotation [(''Cue'', 0, 0), (''Quote'', 0, 1)]"
    by (simp add: late_sentinel_sentence_def Sentence_get_annotations_def
          scan_token_annotation_def as_annotation_def)
  moreover have "get_annotations late_sentinel_rows 2 = Inr [(''Quote'', 0, 0), (''Quote'', 1, 1)]"
    by (simp add: late_sentinel_rows_def get_annotations_def scan_token_def getitem_def
          index_annotation_def py_int_def int_strip_def int_space_def digit_of_def)
  moreover have "rows_render 2 ''alice'' two_sentinel_rows (s_tokens two_sentinel_sentence)"
    by (simp add: rows_render_def two_sentinel_rows_def two_sentinel_sentence_def getitem_def
          render_label_def render_ref_def token_refs_def strs)
  moreover have "sentence_sentinels ''alice'' (s_tokens two_sentinel_sentence)
       @ grouped_spans (sentence_occurrences ''alice'' (s_tokens two_sentinel_sentence))
       = [(''Cue'', 0, 0), (''Note'', 0, 0)]"
    by (simp add: sentence_sentinels_def sentence_occurrences_def annotator_view_def
          two_sentinel_sentence_def grouped_spans_def group_span_def)
  moreover have "Sentence_get_annotations two_sentinel_sentence ''alice'' =
       map as_annotation [(''Cue'', 0, 0), (''Note'', 0, 0)]"
    by (simp add: two_sentinel_sentence_def Sentence_get_annotations_def
          scan_token_annotation_def as_annotation_def)
  moreover have "get_annotations two_sentinel_rows 2 = Inr [(''Cue'', 0, 0)]"
    by (simp add: two_sentinel_rows_def get_annotations_def scan_token_def getitem_def)
  ultimately show ?thesis
    using example_rows_spans example_sentence_spans by (simp add: as_annotation_def)
qed

section \<open>Agreement of the two aggregators\<close>

lemma digit_of_digit_char: "k < 10 \<Longrightarrow> digit_of (digit_char k) = Some k"
proof -
  have "\<forall>k\<in>set [0..<10]. digit_of (digit_char k) = Some k"
    by (simp add: upt_rec digit_of_def digit_char_def)
  moreover assume "k < 10"
  ultimately show ?thesis by simp
qed

lemma str_nat_digits: "list_all (\<lambda>d. digit_of d \<noteq> None) (str_nat n) \<and> str_nat n \<noteq> []"
proof (induction n rule: str_nat.induct)
  case (1 n)
  show ?case
  proof (cases "n < 10")
    case True
    then show ?thesis by (subst (1 2) str_nat.simps) (simp add: digit_of_digit_char)
  next
    case False
    with 1 show ?thesis by (subst (1 2) str_nat.simps) (simp add: digit_of_digit_char)
  qed
qed

lemma decimal_value_snoc:
  "decimal_value (ds @ [d]) = 10 * decimal_value ds + (case digit_of d of None \<Rightarrow> 0 | Some v \<Rightarrow> v)"
  by (simp add: decimal_value_def)

lemma decimal_value_str_nat: "decimal_value (str_nat n) = n"
proof (induction n rule: str_nat.induct)
  case (1 n)
  show ?case
  proof (cases "n < 10")
    case True
    then show ?thesis
      by (subst str_nat.simps) (simp add: decimal_value_def digit_of_digit_char)
  next
    case False
    with 1 show ?thesis
      by (subst str_nat.simps) (simp add: decimal_value_snoc digit_of_digit_char)
  qed
qed

lemma py_int_str_nat: "py_int (str_nat n) = Some (int n)"
proof -
  from str_nat_digits[of n] have "list_all (\<lambda>d. digit_of d \<noteq> None) (str_nat n)"
    and "str_nat n \<noteq> []" by blast+
  from py_int_digits[OF this] show ?thesis by (simp only: decimal_value_str_nat)
qed

lemma py_int_str_int_nonneg: "0 \<le> k \<Longrightarrow> py_int (str_int k) = Some k"
  by (simp add: str_int_def py_int_str_nat)

lemma str_int_inject_nonneg: "0 \<le> k \<Longrightarrow> 0 \<le> k' \<Longrightarrow> str_int k = str_int k' \<Longrightarrow> k = k'"
  by (metis option.inject py_int_str_int_nonneg)

lemma str_int_minus_one: "str_int (- 1) = ''-1''"
  by (simp add: str_int_def str_nat.simps digit_char_def)

lemma digit_chars:
  "digit_of d \<noteq> None \<Longrightarrow>
   d \<noteq> CHR '':'' \<and> d \<noteq> CHR ''|'' \<and> d \<noteq> CHR ''*'' \<and> d \<noteq> CHR ''-'' \<and> d \<noteq> CHR ''_''"
  by (auto simp: digit_of_def)

lemma str_int_nonneg_chars:
  assumes "0 \<le> k"
  shows "CHR '':'' \<notin> set (str_int k)" "CHR ''|'' \<notin> set (str_int k)"
    "CHR ''*'' \<notin> set (str_int k)" "CHR ''-'' \<notin> set (str_int k)" "str_int k \<noteq> []"
proof -
  have str: "str_int k = str_nat (nat k)" using assms by (simp add: str_int_def)
  have "\<forall>d\<in>set (str_nat (nat k)). digit_of d \<noteq> None"
    using str_nat_digits[of "nat k"] by (simp add: list_all_iff)
  with digit_chars have "\<forall>d\<in>set (str_int k).
      d \<noteq> CHR '':'' \<and> d \<noteq> CHR ''|'' \<and> d \<noteq> CHR ''*'' \<and> d \<noteq> CHR ''-''"
    unfolding str by blast
  then show "CHR '':'' \<notin> set (str_int k)" "CHR ''|'' \<notin> set (str_int k)"
    "CHR ''*'' \<notin> set (str_int k)" "CHR ''-'' \<notin> set (str_int k)" by blast+
  show "str_int k \<noteq> []" using str_nat_digits[of "nat k"] str by simp
qed

lemma str_contains_needs_first:
  "c \<notin> set s \<Longrightarrow> \<not> str_contains (c # sub) s"
  by (induction s) auto

lemma str_contains_minus_one_append:
  "str_contains ''-1'' (x @ y) \<longleftrightarrow>
     str_contains ''-1'' x \<or> str_contains ''-1'' y
     \<or> (x \<noteq> [] \<and> last x = CHR ''-'' \<and> y \<noteq> [] \<and> hd y = CHR ''1'')"
proof (induction x)
  case Nil
  then show ?case by simp
next
  case (Cons a x)
  show ?case
  proof (cases x)
    case Nil
    then show ?thesis by (cases y) auto
  next
    case (Cons b x')
    with Cons.IH show ?thesis by auto
  qed
qed

lemma render_ref_chars:
  assumes "plain_category (ta_category ta)" and "0 \<le> ta_id ta"
  shows "CHR ''|'' \<notin> set (render_ref ta)" "CHR ''*'' \<notin> set (render_ref ta)"
    "\<not> str_contains ''-1'' (render_ref ta)" "render_ref ta \<noteq> []"
    "last (render_ref ta) \<noteq> CHR ''-''"
proof -
  note chars = str_int_nonneg_chars[OF assms(2)]
  from assms(1) chars show "CHR ''|'' \<notin> set (render_ref ta)" "CHR ''*'' \<notin> set (render_ref ta)"
    by (simp_all add: render_ref_def plain_category_def)
  from chars(4) have no: "\<not> str_contains ''-1'' (str_int (ta_id ta))"
    by (rule str_contains_needs_first)
  have "\<not> str_contains ''-1'' ('':'' @ str_int (ta_id ta))"
    using no by (subst str_contains_minus_one_append) simp
  with assms(1) show "\<not> str_contains ''-1'' (render_ref ta)"
    unfolding render_ref_def by (subst str_contains_minus_one_append) (simp add: plain_category_def)
  show "render_ref ta \<noteq> []" by (simp add: render_ref_def)
  from chars(4,5) have "last (str_int (ta_id ta)) \<noteq> CHR ''-''"
    by (metis last_in_set)
  with chars(5) show "last (render_ref ta) \<noteq> CHR ''-''" by (simp add: render_ref_def)
qed

lemma join_with_chars:
  assumes "\<forall>x\<in>set xs. CHR ''*'' \<notin> set x \<and> \<not> str_contains ''-1'' x \<and> x \<noteq> [] \<and> last x \<noteq> CHR ''-''"
  shows "CHR ''*'' \<notin> set (join_with (CHR ''|'') xs)
         \<and> \<not> str_contains ''-1'' (join_with (CHR ''|'') xs)"
  using assms
proof (induction "CHR ''|''" xs rule: join_with.induct)
  case (3 x y ys)
  then have rest: "CHR ''*'' \<notin> set (join_with (CHR ''|'') (y # ys))"
    "\<not> str_contains ''-1'' (join_with (CHR ''|'') (y # ys))" by simp_all
  have "\<not> str_contains ''-1'' (''|'' @ join_with (CHR ''|'') (y # ys))"
    using rest(2) by (subst str_contains_minus_one_append) simp
  then have "\<not> str_contains ''-1'' (x @ ''|'' @ join_with (CHR ''|'') (y # ys))"
    using 3(2) by (subst str_contains_minus_one_append) simp
  with rest 3(2) show ?case by simp
qed simp_all

lemma takeWhile_render_ref:
  "plain_category (ta_category ta) \<Longrightarrow>
   takeWhile (\<lambda>c. c \<noteq> CHR '':'') (render_ref ta) = ta_category ta"
  using takeWhile_before_sep[of "CHR '':''" "ta_category ta" "str_int (ta_id ta)"]
  by (simp add: render_ref_def plain_category_def)

lemma render_label_not_underscore: "tas \<noteq> [] \<Longrightarrow> render_label tas \<noteq> ''_''"
proof -
  assume "tas \<noteq> []"
  then obtain ta rest where tas: "tas = ta # rest" by (cases tas) auto
  have "CHR '':'' \<in> set (render_ref ta)" by (simp add: render_ref_def)
  then have "CHR '':'' \<in> set (join_with (CHR ''|'') (render_ref ta # map render_ref rest))"
    by (cases rest) simp_all
  with tas show ?thesis by (auto simp: render_label_def)
qed

text \<open>What a rendered label contributes, read off the references.\<close>

lemma label_of_refs:
  assumes "plain_refs tas"
  shows "CHR ''*'' \<notin> set (render_label tas)"
    and "label_appended i (render_label tas) =
           map (\<lambda>ta. (ta_category ta, i, i)) (filter (\<lambda>ta. ta_id ta = - 1) tas)"
    and "label_indexed i (render_label tas) =
           map (\<lambda>ta. (render_ref ta, ta_category ta, i)) (filter (\<lambda>ta. ta_id ta \<noteq> - 1) tas)"
proof -
  consider (none) "tas = []" | (sentinel) ta where "tas = [ta]" "ta_id ta = - 1"
    | (grouped) "tas \<noteq> []" "\<forall>ta\<in>set tas. 0 \<le> ta_id ta"
  proof (cases "\<exists>ta\<in>set tas. ta_id ta = - 1")
    case True
    with assms that(2) show ?thesis by (auto simp: plain_refs_def)
  next
    case False
    with assms have "\<forall>ta\<in>set tas. 0 \<le> ta_id ta" by (fastforce simp: plain_refs_def)
    with that(1,3) show ?thesis by (cases "tas = []") auto
  qed
  then have "CHR ''*'' \<notin> set (render_label tas)
    \<and> label_appended i (render_label tas) =
           map (\<lambda>ta. (ta_category ta, i, i)) (filter (\<lambda>ta. ta_id ta = - 1) tas)
    \<and> label_indexed i (render_label tas) =
           map (\<lambda>ta. (render_ref ta, ta_category ta, i)) (filter (\<lambda>ta. ta_id ta \<noteq> - 1) tas)"
  proof cases
    case none
    then show ?thesis by (simp add: render_label_def label_appended_def label_indexed_def)
  next
    case sentinel
    with assms have plain: "plain_category (ta_category ta)" by (simp add: plain_refs_def)
    have label: "render_label tas = ta_category ta @ '':-1''"
      using sentinel by (simp add: render_label_def render_ref_def str_int_minus_one)
    have "str_contains ''-1'' ((ta_category ta @ '':'') @ ''-1'' @ [])"
      by (rule str_contains_middle)
    then have has: "str_contains ''-1'' (render_label tas)" using label by simp
    have ne: "render_label tas \<noteq> ''_''" using sentinel by (intro render_label_not_underscore) simp
    have cat: "takeWhile (\<lambda>c. c \<noteq> CHR '':'') (render_label tas) = ta_category ta"
      using plain takeWhile_before_sep[of "CHR '':''" "ta_category ta" "''-1''"] label
      by (simp add: plain_category_def)
    from plain label have "CHR ''*'' \<notin> set (render_label tas)" by (simp add: plain_category_def)
    with has ne cat sentinel show ?thesis
      by (simp add: label_appended_def label_indexed_def)
  next
    case grouped
    with assms have each: "\<forall>ta\<in>set tas. plain_category (ta_category ta) \<and> 0 \<le> ta_id ta"
      by (simp add: plain_refs_def)
    then have chars: "\<forall>x\<in>set (map render_ref tas).
        CHR ''*'' \<notin> set x \<and> \<not> str_contains ''-1'' x \<and> x \<noteq> [] \<and> last x \<noteq> CHR ''-''"
      by (auto dest: render_ref_chars)
    from each have bars: "\<forall>x\<in>set (map render_ref tas). CHR ''|'' \<notin> set x"
      by (auto dest: render_ref_chars(1))
    from grouped(1) have label: "render_label tas = join_with (CHR ''|'') (map render_ref tas)"
      by (simp add: render_label_def)
    from join_with_chars[OF chars] label have star: "CHR ''*'' \<notin> set (render_label tas)"
      and no: "\<not> str_contains ''-1'' (render_label tas)" by simp_all
    have ne: "render_label tas \<noteq> ''_''" using grouped(1) by (rule render_label_not_underscore)
    have split: "split_on (CHR ''|'') (render_label tas) = map render_ref tas"
      unfolding label using grouped(1) bars by (intro split_on_join_with) simp_all
    from grouped(2) have f1: "filter (\<lambda>ta. ta_id ta = - 1) tas = []"
      by (auto simp: filter_empty_conv)
    from grouped(2) have f2: "filter (\<lambda>ta. ta_id ta \<noteq> - 1) tas = tas"
      by (auto simp: filter_id_conv)
    have "map (\<lambda>annotation. (annotation, takeWhile (\<lambda>c. c \<noteq> CHR '':'') annotation, i))
            (map render_ref tas) = map (\<lambda>ta. (render_ref ta, ta_category ta, i)) tas"
      using each by (simp add: takeWhile_render_ref)
    with star no ne split f1 f2 show ?thesis
      by (simp add: label_appended_def label_indexed_def)
  qed
  then show "CHR ''*'' \<notin> set (render_label tas)"
    and "label_appended i (render_label tas) =
           map (\<lambda>ta. (ta_category ta, i, i)) (filter (\<lambda>ta. ta_id ta = - 1) tas)"
    and "label_indexed i (render_label tas) =
           map (\<lambda>ta. (render_ref ta, ta_category ta, i)) (filter (\<lambda>ta. ta_id ta \<noteq> - 1) tas)"
    by simp_all
qed

lemma index_annotation_render:
  assumes "plain_category (ta_category ta)" and "0 \<le> ta_id ta"
  shows "\<exists>indexed'. index_annotation i (render_ref ta) indexed = Inr indexed'"
proof -
  from assms(1) have "CHR '':'' \<notin> set (ta_category ta)" by (simp add: plain_category_def)
  then have "split_on (CHR '':'') (render_ref ta) =
      ta_category ta # split_on (CHR '':'') (str_int (ta_id ta))"
    unfolding render_ref_def using split_on_append_sep[of "CHR '':''" "ta_category ta"] by simp
  moreover have "split_on (CHR '':'') (str_int (ta_id ta)) = [str_int (ta_id ta)]"
    using str_int_nonneg_chars(1)[OF assms(2)] by (rule split_on_no_sep)
  ultimately have "split_on (CHR '':'') (render_ref ta) = [ta_category ta, str_int (ta_id ta)]"
    by simp
  then show ?thesis
    using py_int_str_int_nonneg[OF assms(2)] by (simp add: index_annotation_def)
qed

lemma index_annotations_render:
  "\<forall>ta\<in>set tas. plain_category (ta_category ta) \<and> 0 \<le> ta_id ta \<Longrightarrow>
   \<exists>indexed'. index_annotations i (map render_ref tas) indexed = Inr indexed'"
proof (induction tas arbitrary: indexed)
  case (Cons ta tas)
  then obtain mid where "index_annotation i (render_ref ta) indexed = Inr mid"
    using index_annotation_render[of ta i indexed] by auto
  moreover from Cons obtain indexed' where "index_annotations i (map render_ref tas) mid = Inr indexed'"
    by fastforce
  ultimately show ?case by simp
qed simp

lemma scan_token_render:
  assumes "plain_refs tas" and "getitem token col = Inr (render_label tas)"
  shows "\<exists>st'. scan_token col i token st = Inr (Next st')"
proof -
  let ?label = "render_label tas"
  note facts = label_of_refs(1)[OF assms(1)] label_of_refs(2,3)[OF assms(1), of i]
  have "\<exists>f. scan_token col i token st = Inr f"
  proof (cases "\<exists>ta\<in>set tas. ta_id ta = - 1")
    case True
    then have "label_appended i ?label \<noteq> []"
      unfolding facts(2) by (auto simp: filter_empty_conv)
    then have label: "?label \<noteq> ''_''" "str_contains ''-1'' ?label"
      by (auto simp: label_appended_def split: if_splits)
    from True obtain ta rest where "tas = ta # rest" by (cases tas) auto
    then have "CHR '':'' \<in> set ?label"
      by (cases rest) (simp_all add: render_label_def render_ref_def)
    from scan_token_sentinel_label[OF assms(2) facts(1) label this] show ?thesis by blast
  next
    case False
    with assms(1) have each: "\<forall>ta\<in>set tas. plain_category (ta_category ta) \<and> 0 \<le> ta_id ta"
      by (fastforce simp: plain_refs_def)
    show ?thesis
    proof (cases "tas = []")
      case True
      with assms(2) show ?thesis by (simp add: scan_token_def render_label_def)
    next
      case ne: False
      from False have "filter (\<lambda>ta. ta_id ta \<noteq> - 1) tas = tas" by (auto simp: filter_id_conv)
      with facts(3) ne have occ: "label_indexed i ?label =
          map (\<lambda>ta. (render_ref ta, ta_category ta, i)) tas" by simp
      with ne have label: "?label \<noteq> ''_''" "\<not> str_contains ''-1'' ?label"
        by (auto simp: label_indexed_def split: if_splits)
      with occ have "map fst (map (\<lambda>annotation.
            (annotation, takeWhile (\<lambda>c. c \<noteq> CHR '':'') annotation, i)) (split_on (CHR ''|'') ?label))
          = map fst (map (\<lambda>ta. (render_ref ta, ta_category ta, i)) tas)"
        by (simp add: label_indexed_def)
      then have split: "split_on (CHR ''|'') ?label = map render_ref tas"
        by (simp add: comp_def)
      from index_annotations_render[OF each, of i "indexed_annotations st"] obtain indexed'
        where "index_annotations i (map render_ref tas) (indexed_annotations st) = Inr indexed'"
        by blast
      with assms(2) facts(1) label split show ?thesis by (simp add: scan_token_def)
    qed
  qed
  then obtain f where f: "scan_token col i token st = Inr f" by blast
  from scan_token_next[OF assms(2) facts(1) f] f show ?thesis by auto
qed

lemma scan_tokens_render:
  "rows_render col annotator rows tokens \<Longrightarrow>
   \<forall>token\<in>set tokens. plain_refs (token_refs annotator token) \<Longrightarrow>
   \<exists>st'. scan_tokens col i rows st = Inr st'"
  unfolding rows_render_def
proof (induction rows tokens arbitrary: i st rule: list_all2_induct)
  case Nil
  then show ?case by simp
next
  case (Cons row rows token tokens)
  from Cons.prems have "plain_refs (token_refs annotator token)" by simp
  from scan_token_render[OF this Cons.hyps(1), of i st] obtain st1
    where "scan_token col i row st = Inr (Next st1)" by blast
  moreover from Cons.IH[of "Suc i" st1] Cons.prems
  obtain st' where "scan_tokens col (Suc i) rows st1 = Inr st'" by auto
  ultimately show ?case by simp
qed

lemma get_annotations_render:
  assumes "rows_render col annotator rows tokens"
    and "\<forall>token\<in>set tokens. plain_refs (token_refs annotator token)"
  shows "get_annotations rows col =
           Inr (rows_appended 0 (map (\<lambda>token. render_label (token_refs annotator token)) tokens)
                @ grouped_spans
                    (rows_indexed 0
                       (map (\<lambda>token. render_label (token_refs annotator token)) tokens)))"
proof -
  let ?labels = "map (\<lambda>token. render_label (token_refs annotator token)) tokens"
  from scan_tokens_render[OF assms, of 0 "\<lparr>annotations = [], indexed_annotations = [], printed = []\<rparr>"]
  obtain spans where spans: "get_annotations rows col = Inr spans"
    by (auto simp: get_annotations_def)
  from assms(1) have labels: "map (\<lambda>token. getitem token col) rows = map Inr ?labels"
    unfolding rows_render_def by (induction rows tokens rule: list_all2_induct) simp_all
  from assms(2) have stars: "\<forall>label\<in>set ?labels. CHR ''*'' \<notin> set label"
    by (auto dest: label_of_refs(1))
  from get_annotations_two_phase[OF labels stars spans] spans show ?thesis by simp
qed

lemma annotator_view_Cons:
  "annotator_view annotator (token # tokens) =
     map (\<lambda>ta. (t_id token, ta)) (token_refs annotator token) @ annotator_view annotator tokens"
  by (simp add: annotator_view_def token_refs_def)

lemma ids_from_Cons:
  assumes "map t_id (token # tokens) = map int [i..<i + length (token # tokens)]"
  shows "t_id token = int i" "map t_id tokens = map int [Suc i..<Suc i + length tokens]"
proof -
  have "[i..<i + length (token # tokens)] = i # [Suc i..<Suc i + length tokens]"
    by (subst upt_rec) simp
  with assms have "map t_id (token # tokens) = map int (i # [Suc i..<Suc i + length tokens])"
    by (simp only:)
  then show "t_id token = int i" "map t_id tokens = map int [Suc i..<Suc i + length tokens]"
    by simp_all
qed

lemma rows_appended_view:
  "\<forall>token\<in>set tokens. plain_refs (token_refs annotator token) \<Longrightarrow>
   map t_id tokens = map int [i..<i + length tokens] \<Longrightarrow>
   map int_span (rows_appended i (map (\<lambda>token. render_label (token_refs annotator token)) tokens))
     = sentence_sentinels annotator tokens"
proof (induction tokens arbitrary: i)
  case Nil
  then show ?case by (simp add: rows_appended_def sentence_sentinels_def annotator_view_def)
next
  case (Cons token tokens)
  note ids = ids_from_Cons[OF Cons.prems(2)]
  from Cons.prems(1) have plain: "plain_refs (token_refs annotator token)" by simp
  have "rows_appended i (map (\<lambda>token. render_label (token_refs annotator token)) (token # tokens))
      = label_appended i (render_label (token_refs annotator token))
        @ rows_appended (Suc i) (map (\<lambda>token. render_label (token_refs annotator token)) tokens)"
    by (simp add: rows_appended_def)
  moreover have "sentence_sentinels annotator (token # tokens) =
      map (\<lambda>ta. (ta_category ta, t_id token, t_id token))
        (filter (\<lambda>ta. ta_id ta = - 1) (token_refs annotator token))
      @ sentence_sentinels annotator tokens"
    by (simp add: sentence_sentinels_def annotator_view_Cons filter_map comp_def)
  ultimately show ?case
    using Cons.IH[OF _ ids(2)] Cons.prems(1) ids(1) label_of_refs(2)[OF plain, of i]
    by (simp add: int_span_def comp_def)
qed

lemma rows_indexed_view:
  "\<forall>token\<in>set tokens. plain_refs (token_refs annotator token) \<Longrightarrow>
   map t_id tokens = map int [i..<i + length tokens] \<Longrightarrow>
   map (\<lambda>(k, c, p). (k, c, int p))
       (rows_indexed i (map (\<lambda>token. render_label (token_refs annotator token)) tokens))
     = map (\<lambda>(tid, ta). (render_ref ta, ta_category ta, tid))
         (filter (\<lambda>(tid, ta). ta_id ta \<noteq> - 1) (annotator_view annotator tokens))"
proof (induction tokens arbitrary: i)
  case Nil
  then show ?case by (simp add: rows_indexed_def annotator_view_def)
next
  case (Cons token tokens)
  note ids = ids_from_Cons[OF Cons.prems(2)]
  from Cons.prems(1) have plain: "plain_refs (token_refs annotator token)" by simp
  have "rows_indexed i (map (\<lambda>token. render_label (token_refs annotator token)) (token # tokens))
      = label_indexed i (render_label (token_refs annotator token))
        @ rows_indexed (Suc i) (map (\<lambda>token. render_label (token_refs annotator token)) tokens)"
    by (simp add: rows_indexed_def)
  then show ?case
    using Cons.IH[OF _ ids(2)] Cons.prems(1) ids(1) label_of_refs(3)[OF plain, of i]
    by (simp add: annotator_view_Cons filter_map comp_def)
qed

lemma group_span_map_position:
  assumes "k \<in> set (map fst occs)"
  shows "group_span (map (\<lambda>(k, c, p). (k, c, g p)) occs) k =
           (case group_span occs k of (c, start, stop) \<Rightarrow> (c, g start, g stop))"
proof -
  let ?hits = "filter (\<lambda>occ. fst occ = k) occs"
  have "filter (\<lambda>occ. fst occ = k) (map (\<lambda>(k, c, p). (k, c, g p)) occs) =
      map (\<lambda>(k, c, p). (k, c, g p)) ?hits"
    by (induction occs) auto
  moreover from assms have "?hits \<noteq> []" by (auto simp: filter_empty_conv)
  ultimately show ?thesis
    by (simp add: group_span_def Let_def hd_map last_map split: prod.splits)
qed

lemma grouped_spans_map_position:
  "grouped_spans (map (\<lambda>(k, c, p). (k, c, g p)) occs) =
     map (\<lambda>(c, start, stop). (c, g start, g stop)) (grouped_spans occs)"
proof -
  have keys: "map fst (map (\<lambda>(k, c, p). (k, c, g p)) occs) = map fst occs"
    by (induction occs) auto
  show ?thesis
    unfolding grouped_spans_def keys
    by (simp add: group_span_map_position)
qed

lemma removeAll_map_key:
  "removeAll (k x) (map k xs) = map k (filter (\<lambda>y. k y \<noteq> k x) xs)"
  by (induction xs) auto

lemma first_seen_rekey:
  "\<forall>x\<in>set xs. \<forall>y\<in>set xs. k1 x = k1 y \<longleftrightarrow> k2 x = k2 y \<Longrightarrow>
   \<exists>reps. set reps \<subseteq> set xs \<and> first_seen (map k1 xs) = map k1 reps
          \<and> first_seen (map k2 xs) = map k2 reps"
proof (induction xs)
  case Nil
  then show ?case by simp
next
  case (Cons x xs)
  then obtain reps where reps: "set reps \<subseteq> set xs" "first_seen (map k1 xs) = map k1 reps"
    "first_seen (map k2 xs) = map k2 reps" by auto
  have "filter (\<lambda>y. k1 y \<noteq> k1 x) reps = filter (\<lambda>y. k2 y \<noteq> k2 x) reps"
    using Cons.prems reps(1) by (intro filter_cong) auto
  then have "first_seen (map k1 (x # xs)) = map k1 (x # filter (\<lambda>y. k1 y \<noteq> k1 x) reps)"
    "first_seen (map k2 (x # xs)) = map k2 (x # filter (\<lambda>y. k1 y \<noteq> k1 x) reps)"
    using reps(2,3) by (simp_all add: removeAll_map_key[of k1] removeAll_map_key[of k2])
  moreover have "set (x # filter (\<lambda>y. k1 y \<noteq> k1 x) reps) \<subseteq> set (x # xs)"
    using reps(1) by auto
  ultimately show ?case by blast
qed

lemma group_span_rekey:
  assumes "\<forall>y\<in>set xs. k1 x = k1 y \<longleftrightarrow> k2 x = k2 y" and "x \<in> set xs"
  shows "group_span (map (\<lambda>x. (k1 x, c x, p x)) xs) (k1 x) =
         group_span (map (\<lambda>x. (k2 x, c x, p x)) xs) (k2 x)"
proof -
  have "filter (\<lambda>occ. fst occ = k1 x) (map (\<lambda>x. (k1 x, c x, p x)) xs) =
        map (\<lambda>x. (k1 x, c x, p x)) (filter (\<lambda>y. k1 y = k1 x) xs)"
    by (simp add: filter_map comp_def)
  moreover have "filter (\<lambda>occ. fst occ = k2 x) (map (\<lambda>x. (k2 x, c x, p x)) xs) =
        map (\<lambda>x. (k2 x, c x, p x)) (filter (\<lambda>y. k2 y = k2 x) xs)"
    by (simp add: filter_map comp_def)
  moreover have "filter (\<lambda>y. k1 y = k1 x) xs = filter (\<lambda>y. k2 y = k2 x) xs"
    using assms by (intro filter_cong) auto
  moreover from assms(2) have "filter (\<lambda>y. k2 y = k2 x) xs \<noteq> []"
    by (auto simp: filter_empty_conv)
  ultimately show ?thesis
    by (simp add: group_span_def Let_def hd_map last_map)
qed

lemma grouped_spans_rekey:
  assumes "\<forall>x\<in>set xs. \<forall>y\<in>set xs. k1 x = k1 y \<longleftrightarrow> k2 x = k2 y"
  shows "grouped_spans (map (\<lambda>x. (k1 x, c x, p x)) xs) =
         grouped_spans (map (\<lambda>x. (k2 x, c x, p x)) xs)"
proof -
  from first_seen_rekey[OF assms] obtain reps where reps: "set reps \<subseteq> set xs"
    "first_seen (map k1 xs) = map k1 reps" "first_seen (map k2 xs) = map k2 reps" by blast
  have "group_span (map (\<lambda>x. (k1 x, c x, p x)) xs) (k1 r) =
        group_span (map (\<lambda>x. (k2 x, c x, p x)) xs) (k2 r)" if "r \<in> set reps" for r
    using that reps(1) assms by (intro group_span_rekey) auto
  then show ?thesis
    using reps(2,3) by (simp add: grouped_spans_def comp_def)
qed

lemma annotator_view_refs:
  "(tid, ta) \<in> set (annotator_view annotator tokens) \<Longrightarrow>
   \<exists>token\<in>set tokens. ta \<in> set (token_refs annotator token)"
  by (auto simp: annotator_view_def token_refs_def)

lemma render_ref_inject:
  assumes "plain_category (ta_category ta)" "plain_category (ta_category ta')"
    and "0 \<le> ta_id ta" "0 \<le> ta_id ta'" and "render_ref ta = render_ref ta'"
  shows "ta_id ta = ta_id ta'"
proof -
  from assms(1,2,5) have cat: "ta_category ta = ta_category ta'"
    using takeWhile_render_ref[of ta] takeWhile_render_ref[of ta'] by simp
  with assms(5) have "str_int (ta_id ta) = str_int (ta_id ta')"
    by (simp add: render_ref_def)
  with assms(3,4) show ?thesis by (rule str_int_inject_nonneg)
qed

lemma view_keys_agree:
  assumes "\<forall>token\<in>set tokens. plain_refs (token_refs annotator token)"
    and "one_category_per_id (concat (map (token_refs annotator) tokens))"
    and "x \<in> set (filter (\<lambda>(tid, ta). ta_id ta \<noteq> - 1) (annotator_view annotator tokens))"
    and "y \<in> set (filter (\<lambda>(tid, ta). ta_id ta \<noteq> - 1) (annotator_view annotator tokens))"
  shows "render_ref (snd x) = render_ref (snd y) \<longleftrightarrow> ta_id (snd x) = ta_id (snd y)"
proof -
  have facts: "plain_category (ta_category ta) \<and> 0 \<le> ta_id ta \<and> ta_id ta \<noteq> - 1
      \<and> ta \<in> set (concat (map (token_refs annotator) tokens))"
    if "(tid, ta) \<in> set (filter (\<lambda>(tid, ta). ta_id ta \<noteq> - 1) (annotator_view annotator tokens))"
    for tid ta
  proof -
    from that have view: "(tid, ta) \<in> set (annotator_view annotator tokens)"
      and id: "ta_id ta \<noteq> - 1" by auto
    from annotator_view_refs[OF view] obtain token where token: "token \<in> set tokens"
      "ta \<in> set (token_refs annotator token)" by blast
    with assms(1) have "plain_category (ta_category ta)" "- 1 \<le> ta_id ta"
      by (auto simp: plain_refs_def)
    with id token show ?thesis by auto
  qed
  obtain tx ax ty ay where xy: "x = (tx, ax)" "y = (ty, ay)" by (cases x, cases y) auto
  note fx = facts[OF assms(3)[unfolded xy]] and fy = facts[OF assms(4)[unfolded xy]]
  show ?thesis
  proof
    assume "render_ref (snd x) = render_ref (snd y)"
    with fx fy xy show "ta_id (snd x) = ta_id (snd y)"
      using render_ref_inject[of ax ay] by simp
  next
    assume same: "ta_id (snd x) = ta_id (snd y)"
    with assms(2) fx fy xy have "ta_category ax = ta_category ay"
      unfolding one_category_per_id_def by (metis snd_conv)
    with same xy show "render_ref (snd x) = render_ref (snd y)"
      by (simp add: render_ref_def)
  qed
qed

text \<open>
  Claim C7, amended.  On equivalent inputs in which the tokens carry the ids \<open>0..N-1\<close>,
  the categories are free of \<open>:\<close>, \<open>|\<close>, \<open>*\<close> and of the text \<open>-1\<close>, every id is the
  sentinel or non-negative, a sentinel reference is the only reference of its token,
  and an id goes with one category throughout the sentence, the aggregator over
  simplified rows returns, and returns the same ordered list of (category, start, end)
  as \<^verbatim>\<open>Sentence.get_annotations\<close>.  The accumulator of the latter is keyed by the id,
  that of the former by the sub-label text \<open>category:id\<close>.
\<close>

theorem aggregators_agree:
  assumes "rows_render col annotator rows (s_tokens self)"
    and "comparable annotator (s_tokens self)"
  shows "\<exists>spans. get_annotations rows col = Inr spans
           \<and> map (\<lambda>sp. as_annotation (int_span sp)) spans =
               Sentence_get_annotations self annotator"
proof -
  let ?tokens = "s_tokens self"
  let ?labels = "map (\<lambda>token. render_label (token_refs annotator token)) ?tokens"
  let ?view = "filter (\<lambda>(tid, ta). ta_id ta \<noteq> - 1) (annotator_view annotator ?tokens)"
  from assms(2) have ids: "map t_id ?tokens = map int [0..<0 + length ?tokens]"
    and plain: "\<forall>token\<in>set ?tokens. plain_refs (token_refs annotator token)"
    and one: "one_category_per_id (concat (map (token_refs annotator) ?tokens))"
    by (simp_all add: comparable_def)
  have rows: "get_annotations rows col =
      Inr (rows_appended 0 ?labels @ grouped_spans (rows_indexed 0 ?labels))"
    using assms(1) plain by (rule get_annotations_render)
  have sentinels: "map int_span (rows_appended 0 ?labels) = sentence_sentinels annotator ?tokens"
    using plain ids by (rule rows_appended_view)
  have "map int_span (grouped_spans (rows_indexed 0 ?labels)) =
      grouped_spans (map (\<lambda>(k, c, p). (k, c, int p)) (rows_indexed 0 ?labels))"
    by (simp add: grouped_spans_map_position int_span_def[abs_def])
  also have "\<dots> = grouped_spans (map (\<lambda>x. (render_ref (snd x), ta_category (snd x), fst x)) ?view)"
    using rows_indexed_view[OF plain ids] by (simp add: case_prod_unfold)
  also have "\<dots> = grouped_spans (map (\<lambda>x. (ta_id (snd x), ta_category (snd x), fst x)) ?view)"
    using view_keys_agree[OF plain one] by (intro grouped_spans_rekey) blast
  also have "\<dots> = grouped_spans (sentence_occurrences annotator ?tokens)"
    by (simp add: sentence_occurrences_def case_prod_unfold)
  finally have grouped: "map int_span (grouped_spans (rows_indexed 0 ?labels)) =
      grouped_spans (sentence_occurrences annotator ?tokens)" .
  have "map (\<lambda>sp. as_annotation (int_span sp))
          (rows_appended 0 ?labels @ grouped_spans (rows_indexed 0 ?labels)) =
        map as_annotation (map int_span (rows_appended 0 ?labels)
          @ map int_span (grouped_spans (rows_indexed 0 ?labels)))"
    by simp
  also have "\<dots> = Sentence_get_annotations self annotator"
    by (simp only: sentinels grouped Sentence_get_annotations_two_phase)
  finally show ?thesis using rows by blast
qed

theorem aggregators_agree_witness:
  "rows_render 2 ''alice'' example_rows (s_tokens example_sentence)
   \<and> comparable ''alice'' (s_tokens example_sentence)
   \<and> get_annotations example_rows 2 = Inr [(''Cue'', 0, 0), (''Cue'', 3, 3), (''Quote'', 1, 2)]
   \<and> Sentence_get_annotations example_sentence ''alice'' =
       map (\<lambda>sp. as_annotation (int_span sp)) [(''Cue'', 0, 0), (''Cue'', 3, 3), (''Quote'', 1, 2)]"
proof -
  have strs: "str_int 7 = ''7''" "str_int (- 1) = ''-1''"
    by (simp_all add: str_int_def str_nat.simps digit_char_def)
  have rows: "rows_render 2 ''alice'' example_rows (s_tokens example_sentence)"
    by (simp add: rows_render_def example_rows_def example_sentence_def getitem_def
          render_label_def render_ref_def token_refs_def strs)
  have comparable: "comparable ''alice'' (s_tokens example_sentence)"
    by (simp add: comparable_def example_sentence_def token_refs_def plain_refs_def
          plain_category_def one_category_per_id_def upt_rec)
  show ?thesis
    using aggregators_agree[OF rows comparable] rows comparable example_rows_spans
    by auto
qed

text \<open>
  The claim as stated fails: the aggregator over simplified rows keys its accumulator
  by the sub-label text, not by the id.  Two tokens that share the id 1 under the
  categories \<open>A\<close> and \<open>B\<close> give two spans there and one span in the object model.
\<close>

theorem accumulator_key_counterexample:
  "rows_render 2 ''alice'' shared_key_rows (s_tokens shared_key_sentence)
   \<and> get_annotations shared_key_rows 2 = Inr [(''A'', 0, 0), (''B'', 1, 1)]
   \<and> Sentence_get_annotations shared_key_sentence ''alice'' = [as_annotation (''A'', 0, 1)]"
proof -
  have strs: "str_int 1 = ''1''"
    by (simp add: str_int_def str_nat.simps digit_char_def)
  have "rows_render 2 ''alice'' shared_key_rows (s_tokens shared_key_sentence)"
    by (simp add: rows_render_def shared_key_rows_def shared_key_sentence_def getitem_def
          render_label_def render_ref_def token_refs_def strs)
  moreover have "get_annotations shared_key_rows 2 = Inr [(''A'', 0, 0), (''B'', 1, 1)]"
    by (simp add: shared_key_rows_def get_annotations_def scan_token_def getitem_def
        index_annotation_def py_int_def int_strip_def int_space_def digit_of_def)
  moreover have "Sentence_get_annotations shared_key_sentence ''alice'' =
      [as_annotation (''A'', 0, 1)]"
    by (simp add: shared_key_sentence_def Sentence_get_annotations_def
          scan_token_annotation_def as_annotation_def)
  ultimately show ?thesis by simp
qed

section \<open>What a truncated scan returns\<close>




end
